theory Spec2Isabelle
  imports Complex_Main "HOL-Library.Multiset"
begin

section \<open>Constants of main.py\<close>

definition WIDTH :: int where "WIDTH = 800"
definition HEIGHT :: int where "HEIGHT = 800"
definition ROWS :: int where "ROWS = 4"
definition COLS :: int where "COLS = 4"
definition RECT_WIDTH :: int where "RECT_WIDTH = WIDTH div COLS"
definition RECT_HEIGHT :: int where "RECT_HEIGHT = HEIGHT div ROWS"
definition ANIMATION_SPEED :: int where "ANIMATION_SPEED = 30"
definition MERGE_ANIM_DURATION :: int where "MERGE_ANIM_DURATION = 8"

section \<open>The Tile class\<close>

text \<open>
  The attributes of class Tile. The attribute \<^verbatim>\<open>value\<close> is the field \<open>tile_value\<close>
  and the pixel position \<^verbatim>\<open>x\<close>, \<^verbatim>\<open>y\<close> is \<open>tile_x\<close>, \<open>tile_y\<close>; the other fields
  keep their names. Python integers are unbounded, hence \<open>int\<close>; every pixel coordinate
  the program computes is an integer (a product or a floor division of integers).
\<close>

record Tile =
  tile_value :: int
  row :: int
  col :: int
  tile_x :: int
  tile_y :: int
  target_x :: int
  target_y :: int
  merged :: bool
  to_remove :: bool
  merge_anim_counter :: int

text \<open>\<^verbatim>\<open>Tile.__init__(value, row, col)\<close>\<close>

definition new_Tile :: "int \<Rightarrow> int \<Rightarrow> int \<Rightarrow> Tile" where
  "new_Tile v r c =
     \<lparr> tile_value = v, row = r, col = c,
       tile_x = c * RECT_WIDTH, tile_y = r * RECT_HEIGHT,
       target_x = c * RECT_WIDTH, target_y = r * RECT_HEIGHT,
       merged = False, to_remove = False, merge_anim_counter = 0 \<rparr>"

text \<open>\<^verbatim>\<open>Tile.start_merge_animation\<close>\<close>

definition start_merge_animation :: "Tile \<Rightarrow> Tile" where
  "start_merge_animation t = t\<lparr>merge_anim_counter := MERGE_ANIM_DURATION\<rparr>"

text \<open>
  \<^verbatim>\<open>Tile.update_position\<close>: the tile after the call and the returned flag.
\<close>

definition update_position :: "Tile \<Rightarrow> Tile \<times> bool" where
  "update_position t =
     (let mx = (abs (tile_x t - target_x t) > ANIMATION_SPEED);
          t1 = (if mx
                then t\<lparr>tile_x := tile_x t +
                        (if target_x t > tile_x t then ANIMATION_SPEED else - ANIMATION_SPEED)\<rparr>
                else t\<lparr>tile_x := target_x t\<rparr>);
          my = (abs (tile_y t1 - target_y t1) > ANIMATION_SPEED);
          t2 = (if my
                then t1\<lparr>tile_y := tile_y t1 +
                        (if target_y t1 > tile_y t1 then ANIMATION_SPEED else - ANIMATION_SPEED)\<rparr>
                else t1\<lparr>tile_y := target_y t1\<rparr>);
          mv = (mx \<or> my);
          t3 = (if \<not> mv \<and> merge_anim_counter t2 = 0
                then t2\<lparr>row := target_y t2 div RECT_HEIGHT, col := target_x t2 div RECT_WIDTH\<rparr>
                else t2)
      in (t3, mv))"

text \<open>
  The effect of \<^verbatim>\<open>Tile.draw\<close> on the tile: the rendering calls do not touch the tile,
  the last statement decrements a positive merge counter.
\<close>

definition draw_tile :: "Tile \<Rightarrow> Tile" where
  "draw_tile t =
     (if merge_anim_counter t > 0 then t\<lparr>merge_anim_counter := merge_anim_counter t - 1\<rparr> else t)"

section \<open>Errors and list indexing\<close>

datatype py_error = IndexError | TypeError

text \<open>
  Indexing a Python list of length \<open>n\<close>: a negative index counts from the end, an index
  out of range raises IndexError (\<open>None\<close> here).
\<close>

definition py_index :: "int \<Rightarrow> int \<Rightarrow> int option" where
  "py_index n i =
     (if 0 \<le> i \<and> i < n then Some i
      else if - n \<le> i \<and> i < 0 then Some (i + n)
      else None)"

section \<open>move\<close>

text \<open>
  The tile collection is a list of tile objects; the grid of \<^verbatim>\<open>move\<close> holds references
  to them. A reference is the index of the tile in the list (the list keeps its length
  until the purge at the end of \<^verbatim>\<open>move\<close>), so the grid maps a cell \<open>(r, c)\<close> to the
  index of the tile it holds, \<open>None\<close> for Python's \<^verbatim>\<open>None\<close>. The tiles of the list are
  taken to be distinct objects.
\<close>

type_synonym grid = "int \<times> int \<Rightarrow> nat option"

record move_state =
  tiles :: "Tile list"
  grid :: grid
  moved :: bool

text \<open>\<^verbatim>\<open>reset_merged_flags\<close>\<close>

definition reset_merged_flags :: "Tile list \<Rightarrow> Tile list" where
  "reset_merged_flags ts = map (\<lambda>t. t\<lparr>merged := False, to_remove := False\<rparr>) ts"

text \<open>
  The loop \<^verbatim>\<open>for t in tiles: grid[t.row][t.col] = t\<close>; \<open>k\<close> is the index of the
  tile being placed.
\<close>

fun place_tiles :: "nat \<Rightarrow> Tile list \<Rightarrow> grid \<Rightarrow> py_error + grid" where
  "place_tiles k [] g = Inr g"
| "place_tiles k (t # ts) g =
     (case py_index ROWS (row t) of
        None \<Rightarrow> Inl IndexError
      | Some r \<Rightarrow>
          (case py_index COLS (col t) of
             None \<Rightarrow> Inl IndexError
           | Some c \<Rightarrow> place_tiles (Suc k) ts (g((r, c) \<mapsto> k))))"

definition build_grid :: "Tile list \<Rightarrow> py_error + grid" where
  "build_grid ts = place_tiles 0 ts (\<lambda>_. None)"

text \<open>
  The closures of \<^verbatim>\<open>move\<close>. A direction that is none of the four strings falls through
  the \<^verbatim>\<open>if/elif\<close> chain of \<^verbatim>\<open>traverse\<close> and \<^verbatim>\<open>next_pos\<close>, which then return
  Python's \<^verbatim>\<open>None\<close>. The closure \<^verbatim>\<open>within\<close> is \<open>within_grid\<close> here.
\<close>

text \<open>\<^verbatim>\<open>range(ROWS)\<close> and \<^verbatim>\<open>range(COLS)\<close>: both count from 0 to 3.\<close>

definition range4 :: "int list" where
  "range4 = [0, 1, 2, 3]"

definition traverse :: "string \<Rightarrow> (int \<times> int) list option" where
  "traverse d =
     (if d = ''left'' then Some (concat (map (\<lambda>r. map (\<lambda>c. (r, c)) range4) range4))
      else if d = ''right'' then Some (concat (map (\<lambda>r. map (\<lambda>c. (r, c)) (rev range4)) range4))
      else if d = ''up'' then Some (concat (map (\<lambda>c. map (\<lambda>r. (r, c)) range4) range4))
      else if d = ''down'' then Some (concat (map (\<lambda>c. map (\<lambda>r. (r, c)) (rev range4)) range4))
      else None)"

definition next_pos :: "string \<Rightarrow> int \<Rightarrow> int \<Rightarrow> (int \<times> int) option" where
  "next_pos d r c =
     (if d = ''left'' then Some (r, c - 1)
      else if d = ''right'' then Some (r, c + 1)
      else if d = ''up'' then Some (r - 1, c)
      else if d = ''down'' then Some (r + 1, c)
      else None)"

definition within_grid :: "int \<Rightarrow> int \<Rightarrow> bool" where
  "within_grid r c \<longleftrightarrow> 0 \<le> r \<and> r < ROWS \<and> 0 \<le> c \<and> c < COLS"

text \<open>
  The merge branch of the inner loop: tile \<open>j\<close> (\<^verbatim>\<open>next_tile\<close>) is doubled, flagged and
  starts its animation, tile \<open>i\<close> (\<^verbatim>\<open>tile\<close>) is flagged for removal, its cell is cleared.
\<close>

definition merge_into :: "nat \<Rightarrow> nat \<Rightarrow> int \<times> int \<Rightarrow> move_state \<Rightarrow> move_state" where
  "merge_into i j cur st =
     (let ts1 = (tiles st)[j := start_merge_animation
                   ((tiles st ! j)\<lparr>tile_value := tile_value (tiles st ! j) * 2, merged := True\<rparr>)];
          ts2 = ts1[i := (ts1 ! i)\<lparr>to_remove := True\<rparr>]
      in st\<lparr>tiles := ts2, grid := (grid st)(cur := None), moved := True\<rparr>)"

text \<open>
  The number of steps left to the border in direction \<open>d\<close>: the variant of the
  \<^verbatim>\<open>while True\<close> loop.
\<close>

definition steps_left :: "string \<Rightarrow> int \<Rightarrow> int \<Rightarrow> nat" where
  "steps_left d r c =
     (if d = ''left'' then nat c
      else if d = ''right'' then nat (COLS - 1 - c)
      else if d = ''up'' then nat r
      else nat (ROWS - 1 - r))"

text \<open>
  The \<^verbatim>\<open>while True\<close> loop for the tile \<open>i\<close> standing on \<open>(cr, cc)\<close>: the cell where it
  stops and the state then. Unpacking \<^verbatim>\<open>None\<close> raises TypeError.
\<close>

function slide ::
  "string \<Rightarrow> nat \<Rightarrow> int \<times> int \<Rightarrow> move_state \<Rightarrow>
     (py_error \<times> move_state) + ((int \<times> int) \<times> move_state)" where
  "slide d i (cr, cc) st =
     (case next_pos d cr cc of
        None \<Rightarrow> Inl (TypeError, st)
      | Some (nr, nc) \<Rightarrow>
          if \<not> within_grid nr nc then Inr ((cr, cc), st)
          else (case grid st (nr, nc) of
                  None \<Rightarrow>
                    slide d i (nr, nc)
                      (st\<lparr>grid := (grid st)((nr, nc) \<mapsto> i, (cr, cc) := None), moved := True\<rparr>)
                | Some j \<Rightarrow>
                    if tile_value (tiles st ! j) = tile_value (tiles st ! i)
                       \<and> \<not> merged (tiles st ! i) \<and> \<not> merged (tiles st ! j)
                    then Inr ((cr, cc), merge_into i j (cr, cc) st)
                    else Inr ((cr, cc), st)))"
  by pat_completeness auto
termination
proof (relation "measure (\<lambda>(d, i, (cr, cc), st). steps_left d cr cc)")
  show "wf (measure (\<lambda>(d, i, (cr, cc), st). steps_left d cr cc))" by simp
next
  fix d :: string and i :: nat and cr cc :: int and st :: move_state
    and x2 :: "int \<times> int" and nr nc :: int
  assume "next_pos d cr cc = Some x2" and "(nr, nc) = x2" and "\<not> \<not> within_grid nr nc"
  then show "((d, i, (nr, nc),
               st\<lparr>grid := (grid st)((nr, nc) \<mapsto> i, (cr, cc) := None), moved := True\<rparr>),
              (d, i, (cr, cc), st))
             \<in> measure (\<lambda>(d, i, (cr, cc), st). steps_left d cr cc)"
    by (auto simp: next_pos_def within_grid_def steps_left_def ROWS_def COLS_def split: if_splits)
qed

declare slide.simps [simp del]

text \<open>
  The \<^verbatim>\<open>for r, c in traverse()\<close> loop over the cells still to visit; after the inner
  loop the tile's target is set from the cell where it stopped.
\<close>

definition set_target :: "nat \<Rightarrow> int \<times> int \<Rightarrow> move_state \<Rightarrow> move_state" where
  "set_target i cur st =
     st\<lparr>tiles := (tiles st)[i := (tiles st ! i)\<lparr>target_x := snd cur * RECT_WIDTH,
                                                target_y := fst cur * RECT_HEIGHT\<rparr>]\<rparr>"

fun move_loop ::
  "string \<Rightarrow> (int \<times> int) list \<Rightarrow> move_state \<Rightarrow> (py_error \<times> move_state) + move_state" where
  "move_loop d [] st = Inr st"
| "move_loop d ((r, c) # cells) st =
     (case grid st (r, c) of
        None \<Rightarrow> move_loop d cells st
      | Some i \<Rightarrow>
          (case slide d i (r, c) st of
             Inl e \<Rightarrow> Inl e
           | Inr (cur, st') \<Rightarrow> move_loop d cells (set_target i cur st')))"

text \<open>
  \<^verbatim>\<open>move\<close> up to the purge: either the exception raised with the tiles as they are
  then, or the state after the loop.
\<close>

definition move_run :: "Tile list \<Rightarrow> string \<Rightarrow> (py_error \<times> Tile list) + move_state" where
  "move_run ts d =
     (let ts0 = reset_merged_flags ts in
      case build_grid ts0 of
        Inl e \<Rightarrow> Inl (e, ts0)
      | Inr g \<Rightarrow>
          (case traverse d of
             None \<Rightarrow> Inl (TypeError, ts0)
           | Some cells \<Rightarrow>
               (case move_loop d cells \<lparr>tiles = ts0, grid = g, moved = False\<rparr> of
                  Inl (e, st) \<Rightarrow> Inl (e, tiles st)
                | Inr st \<Rightarrow> Inr st)))"

text \<open>
  \<^verbatim>\<open>move(tiles, direction)\<close>: the tile collection after the call, and either the
  exception raised or the value returned. The purge \<^verbatim>\<open>tiles[:] = [...]\<close> is only
  reached when nothing was raised.
\<close>

definition move :: "Tile list \<Rightarrow> string \<Rightarrow> Tile list \<times> (py_error + bool)" where
  "move ts d =
     (case move_run ts d of
        Inl (e, ts') \<Rightarrow> (ts', Inl e)
      | Inr st \<Rightarrow> (filter (\<lambda>t. \<not> to_remove t) (tiles st), Inr (moved st)))"

section \<open>spawn_tile and can_move\<close>

text \<open>\<^verbatim>\<open>[(r, c) for r in range(ROWS) for c in range(COLS)]\<close>\<close>

definition all_cells :: "(int \<times> int) list" where
  "all_cells = concat (map (\<lambda>r. map (\<lambda>c. (r, c)) range4) range4)"

text \<open>The list \<^verbatim>\<open>available\<close> of \<^verbatim>\<open>spawn_tile\<close>.\<close>

definition available :: "Tile list \<Rightarrow> (int \<times> int) list" where
  "available ts = filter (\<lambda>rc. rc \<notin> set (map (\<lambda>t. (row t, col t)) ts)) all_cells"

text \<open>
  \<^verbatim>\<open>spawn_tile(tiles)\<close>: the collection after the call and the value returned. The two
  random draws are parameters: \<open>k\<close> is the index that \<^verbatim>\<open>random.choice\<close> picks in
  \<^verbatim>\<open>available\<close> (below its length), \<open>u\<close> is the number \<^verbatim>\<open>random.random()\<close> returns,
  compared with one tenth.
\<close>

definition spawn_tile :: "nat \<Rightarrow> rat \<Rightarrow> Tile list \<Rightarrow> Tile list \<times> bool" where
  "spawn_tile k u ts =
     (let av = available ts in
      if av = [] then (ts, False)
      else (let (r, c) = av ! k;
                new_value = (if u < 1 / 10 then 4 else 2)
            in (ts @ [new_Tile new_value r c], True)))"

text \<open>
  The loop \<^verbatim>\<open>for t in tiles: grid[t.row][t.col] = t.value\<close> of \<^verbatim>\<open>can_move\<close>, on a grid
  of numbers that starts with 0 everywhere.
\<close>

fun place_values :: "Tile list \<Rightarrow> (int \<times> int \<Rightarrow> int) \<Rightarrow> py_error + (int \<times> int \<Rightarrow> int)" where
  "place_values [] g = Inr g"
| "place_values (t # ts) g =
     (case py_index ROWS (row t) of
        None \<Rightarrow> Inl IndexError
      | Some r \<Rightarrow>
          (case py_index COLS (col t) of
             None \<Rightarrow> Inl IndexError
           | Some c \<Rightarrow> place_values ts (g((r, c) := tile_value t))))"

text \<open>
  \<^verbatim>\<open>can_move(tiles)\<close>. The nested loops return True at the first cell whose right or
  lower neighbour holds the same number, and False when there is none.
\<close>

definition can_move :: "Tile list \<Rightarrow> py_error + bool" where
  "can_move ts =
     (if int (length ts) < ROWS * COLS then Inr True
      else (case place_values ts (\<lambda>_. 0) of
              Inl e \<Rightarrow> Inl e
            | Inr g \<Rightarrow>
                Inr (list_ex (\<lambda>(r, c). (c + 1 < COLS \<and> g (r, c) = g (r, c + 1))
                                     \<or> (r + 1 < ROWS \<and> g (r, c) = g (r + 1, c)))
                       all_cells)))"

section \<open>The control loop of main\<close>

datatype key = K_LEFT | K_RIGHT | K_UP | K_DOWN | K_OTHER

datatype event = QUIT | KEYDOWN key | OTHER_EVENT

text \<open>The local variables of \<^verbatim>\<open>main\<close>; \<open>game_tiles\<close> is its list \<^verbatim>\<open>tiles\<close>.\<close>

record game =
  game_tiles :: "Tile list"
  running :: bool
  animating :: bool
  merge_animation_running :: bool

text \<open>The direction chosen for a pressed key, \<open>None\<close> when it is no arrow key.\<close>

fun key_direction :: "key \<Rightarrow> string option" where
  "key_direction K_LEFT = Some ''left''"
| "key_direction K_RIGHT = Some ''right''"
| "key_direction K_UP = Some ''up''"
| "key_direction K_DOWN = Some ''down''"
| "key_direction K_OTHER = None"

text \<open>
  The event loop of the branch that accepts input. QUIT leaves the loop; a key with a
  direction calls \<^verbatim>\<open>move\<close>, whose exception ends the program.
\<close>

fun handle_events :: "event list \<Rightarrow> game \<Rightarrow> py_error + game" where
  "handle_events [] gm = Inr gm"
| "handle_events (QUIT # es) gm = Inr (gm\<lparr>running := False\<rparr>)"
| "handle_events (KEYDOWN k # es) gm =
     (case key_direction k of
        None \<Rightarrow> handle_events es gm
      | Some d \<Rightarrow>
          (case move (game_tiles gm) d of
             (ts, Inl e) \<Rightarrow> Inl e
           | (ts, Inr m) \<Rightarrow>
               handle_events es
                 (gm\<lparr>game_tiles := ts, animating := (if m then True else animating gm)\<rparr>)))"
| "handle_events (OTHER_EVENT # es) gm = handle_events es gm"

text \<open>The event loop of the animating branch: only QUIT is looked at.\<close>

fun quit_events :: "event list \<Rightarrow> game \<Rightarrow> game" where
  "quit_events [] gm = gm"
| "quit_events (QUIT # es) gm = gm\<lparr>running := False\<rparr>"
| "quit_events (e # es) gm = quit_events es gm"

text \<open>
  \<^verbatim>\<open>tile.row = int(tile.target_y // RECT_HEIGHT); tile.col = int(tile.target_x // RECT_WIDTH)\<close>
\<close>

definition resync :: "Tile \<Rightarrow> Tile" where
  "resync t = t\<lparr>row := target_y t div RECT_HEIGHT, col := target_x t div RECT_WIDTH\<rparr>"

text \<open>
  The end of the animation phase: the cells are resynchronised, a tile is spawned and
  the game is over when \<^verbatim>\<open>can_move\<close> is false.
\<close>

definition finish_animation :: "nat \<Rightarrow> rat \<Rightarrow> game \<Rightarrow> py_error + game" where
  "finish_animation k u gm =
     (let ts = fst (spawn_tile k u (map resync (game_tiles gm))) in
      case can_move ts of
        Inl e \<Rightarrow> Inl e
      | Inr ok \<Rightarrow> Inr (gm\<lparr>game_tiles := ts, running := (if \<not> ok then False else running gm)\<rparr>))"

text \<open>\<^verbatim>\<open>if t.merge_anim_counter > 0: t.merge_anim_counter -= 1\<close> in \<^verbatim>\<open>main\<close>\<close>

definition progress_merge :: "Tile \<Rightarrow> Tile" where
  "progress_merge t =
     (if merge_anim_counter t > 0 then t\<lparr>merge_anim_counter := merge_anim_counter t - 1\<rparr> else t)"

text \<open>The animating branch of the loop body, up to its event loop.\<close>

definition animate :: "nat \<Rightarrow> rat \<Rightarrow> game \<Rightarrow> py_error + game" where
  "animate k u gm =
     (let ts1 = map (\<lambda>t. fst (update_position t)) (game_tiles gm);
          any_moving = list_ex (\<lambda>t. snd (update_position t)) (game_tiles gm);
          gm1 = gm\<lparr>game_tiles := ts1\<rparr>
      in if any_moving then Inr gm1
         else (let gm2 = (if \<not> merge_animation_running gm1
                             \<and> filter (\<lambda>t. merge_anim_counter t > 0) ts1 \<noteq> []
                          then gm1\<lparr>merge_animation_running := True\<rparr> else gm1)
               in if merge_animation_running gm2
                  then (let ts2 = map progress_merge ts1;
                            gm3 = gm2\<lparr>game_tiles := ts2\<rparr>
                        in if list_all (\<lambda>t. merge_anim_counter t = 0) ts2
                           then finish_animation k u
                                  (gm3\<lparr>merge_animation_running := False, animating := False\<rparr>)
                           else Inr gm3)
                  else finish_animation k u (gm2\<lparr>animating := False\<rparr>)))"

text \<open>\<^verbatim>\<open>draw(WINDOW, tiles)\<close>: what it does to the tiles.\<close>

definition draw :: "Tile list \<Rightarrow> Tile list" where
  "draw ts = map draw_tile ts"

text \<open>
  One pass through the body of \<^verbatim>\<open>while running\<close>: \<open>es\<close> are the events pygame delivers
  in this frame, \<open>k\<close> and \<open>u\<close> the random draws of the frame's \<^verbatim>\<open>spawn_tile\<close> call.
\<close>

definition frame :: "event list \<Rightarrow> nat \<Rightarrow> rat \<Rightarrow> game \<Rightarrow> py_error + game" where
  "frame es k u gm =
     (case (if \<not> animating gm \<and> \<not> merge_animation_running gm
            then handle_events es gm
            else (case animate k u gm of
                    Inl e \<Rightarrow> Inl e
                  | Inr gm' \<Rightarrow> Inr (quit_events es gm'))) of
        Inl e \<Rightarrow> Inl e
      | Inr gm' \<Rightarrow> Inr (gm'\<lparr>game_tiles := draw (game_tiles gm')\<rparr>))"

section \<open>Notions used in the proofs\<close>

text \<open>The four directions that \<^verbatim>\<open>traverse\<close> and \<^verbatim>\<open>next_pos\<close> know.\<close>

definition valid_direction :: "string \<Rightarrow> bool" where
  "valid_direction d \<longleftrightarrow> d = ''left'' \<or> d = ''right'' \<or> d = ''up'' \<or> d = ''down''"

text \<open>\<^verbatim>\<open>next_pos\<close> on a cell, for a valid direction.\<close>

definition nxt :: "string \<Rightarrow> int \<times> int \<Rightarrow> int \<times> int" where
  "nxt d c = (case next_pos d (fst c) (snd c) of Some n \<Rightarrow> n | None \<Rightarrow> c)"

text \<open>\<^verbatim>\<open>within\<close> on a cell.\<close>

definition inside :: "int \<times> int \<Rightarrow> bool" where
  "inside c = within_grid (fst c) (snd c)"

text \<open>The branch of the inner loop that moves tile \<open>i\<close> from \<open>cur\<close> into the empty cell \<open>n\<close>.\<close>

definition slide_step :: "nat \<Rightarrow> int \<times> int \<Rightarrow> int \<times> int \<Rightarrow> move_state \<Rightarrow> move_state" where
  "slide_step i cur n st = st\<lparr>grid := (grid st)(n \<mapsto> i, cur := None), moved := True\<rparr>"

text \<open>The test of the merge branch.\<close>

definition can_merge :: "nat \<Rightarrow> nat \<Rightarrow> move_state \<Rightarrow> bool" where
  "can_merge i j st \<longleftrightarrow>
     tile_value (tiles st ! j) = tile_value (tiles st ! i)
     \<and> \<not> merged (tiles st ! i) \<and> \<not> merged (tiles st ! j)"

text \<open>The logical cell of a tile, and the cell of its target: the cell \<^verbatim>\<open>main\<close> and
  \<^verbatim>\<open>update_position\<close> give the tile when the animation has ended.\<close>

definition cell :: "Tile \<Rightarrow> int \<times> int" where
  "cell t = (row t, col t)"

definition target_cell :: "Tile \<Rightarrow> int \<times> int" where
  "target_cell t = (target_y t div RECT_HEIGHT, target_x t div RECT_WIDTH)"

text \<open>What the inner loop leaves alone in every tile.\<close>

definition layout :: "Tile \<Rightarrow> (int \<times> int) \<times> int \<times> int" where
  "layout t = (cell t, target_x t, target_y t)"

text \<open>Where a tile stands during the traversal, \<open>rem\<close> being the cells still to visit: on its
  own cell while that cell is ahead, on the cell of its target afterwards.\<close>

definition pos :: "(int \<times> int) list \<Rightarrow> Tile \<Rightarrow> int \<times> int" where
  "pos rem t = (if cell t \<in> set rem then cell t else target_cell t)"

text \<open>The grid and the tiles agree: a cell of the grid holds a live tile that stands there
  (\<open>L\<close> gives the cell of each tile), inside the grid, and every live tile is on its cell.\<close>

definition grid_at :: "(nat \<Rightarrow> int \<times> int) \<Rightarrow> move_state \<Rightarrow> bool" where
  "grid_at L st \<longleftrightarrow>
     (\<forall>c k. grid st c = Some k \<longrightarrow>
        k < length (tiles st) \<and> \<not> to_remove (tiles st ! k) \<and> inside c \<and> L k = c)
     \<and> (\<forall>k < length (tiles st). \<not> to_remove (tiles st ! k) \<longrightarrow> grid st (L k) = Some k)"

text \<open>The order of a traversal: no cell twice, and once a cell has been visited the cell
  next to it in the move direction has been visited too.\<close>

fun ordered_cells :: "string \<Rightarrow> (int \<times> int) list \<Rightarrow> bool" where
  "ordered_cells d [] = True"
| "ordered_cells d (c # rem) =
     (c \<notin> set rem \<and> list_all (\<lambda>a. nxt d a \<in> set rem \<longrightarrow> a \<in> set rem) all_cells
      \<and> ordered_cells d rem)"

text \<open>The four traversals, written out.\<close>

definition left_cells :: "(int \<times> int) list" where
  "left_cells = [(0,0),(0,1),(0,2),(0,3),(1,0),(1,1),(1,2),(1,3),
                 (2,0),(2,1),(2,2),(2,3),(3,0),(3,1),(3,2),(3,3)]"

definition right_cells :: "(int \<times> int) list" where
  "right_cells = [(0,3),(0,2),(0,1),(0,0),(1,3),(1,2),(1,1),(1,0),
                  (2,3),(2,2),(2,1),(2,0),(3,3),(3,2),(3,1),(3,0)]"

definition up_cells :: "(int \<times> int) list" where
  "up_cells = [(0,0),(1,0),(2,0),(3,0),(0,1),(1,1),(2,1),(3,1),
               (0,2),(1,2),(2,2),(3,2),(0,3),(1,3),(2,3),(3,3)]"

definition down_cells :: "(int \<times> int) list" where
  "down_cells = [(3,0),(2,0),(1,0),(0,0),(3,1),(2,1),(1,1),(0,1),
                 (3,2),(2,2),(1,2),(0,2),(3,3),(2,3),(1,3),(0,3)]"

text \<open>The invariant of the inner loop for tile \<open>i\<close> on \<open>cur\<close>, and of the outer loop.\<close>

definition slide_inv ::
  "(int \<times> int) list \<Rightarrow> Tile list \<Rightarrow> nat \<Rightarrow> int \<times> int \<Rightarrow> move_state \<Rightarrow> bool" where
  "slide_inv rem ts0 i cur st \<longleftrightarrow>
     map layout (tiles st) = map layout ts0
     \<and> grid_at ((\<lambda>k. pos rem (ts0 ! k))(i := cur)) st
     \<and> inside cur \<and> cur \<notin> set rem \<and> i < length ts0"

definition loop_inv :: "(int \<times> int) list \<Rightarrow> move_state \<Rightarrow> bool" where
  "loop_inv rem st \<longleftrightarrow> grid_at (\<lambda>k. pos rem (tiles st ! k)) st"

text \<open>The tiles have pairwise distinct cells, all inside the grid.\<close>

definition well_placed :: "Tile list \<Rightarrow> bool" where
  "well_placed ts \<longleftrightarrow> distinct (map cell ts) \<and> (\<forall>t \<in> set ts. inside (cell t))"

text \<open>A grid with three equal tiles in the first row.\<close>

definition ex_tiles :: "Tile list" where
  "ex_tiles = [new_Tile 2 0 0, new_Tile 2 0 2, new_Tile 2 0 3, new_Tile 4 1 1, new_Tile 8 2 3]"

text \<open>The tile objects as \<^verbatim>\<open>move\<close> leaves them just before the purge (or when it raises):
  tile \<open>k\<close> of this list is tile \<open>k\<close> of the collection passed in.\<close>

definition unpurged :: "Tile list \<Rightarrow> string \<Rightarrow> Tile list" where
  "unpurged ts d = (case move_run ts d of Inl (e, ts') \<Rightarrow> ts' | Inr st \<Rightarrow> tiles st)"

text \<open>What \<^verbatim>\<open>move\<close> keeps of a tile \<open>t\<close>, \<open>t'\<close> being the tile afterwards.\<close>

definition keeps_frame :: "Tile \<Rightarrow> Tile \<Rightarrow> bool" where
  "keeps_frame t t' \<longleftrightarrow>
     row t' = row t \<and> col t' = col t \<and> tile_x t' = tile_x t \<and> tile_y t' = tile_y t
     \<and> (merge_anim_counter t' = merge_anim_counter t
          \<or> merge_anim_counter t' = MERGE_ANIM_DURATION)"

text \<open>Tiles after a merge (the flag \<open>merged\<close> is still set), the game before a merge, and two
  equal neighbours.\<close>

definition stale_tiles :: "Tile list" where
  "stale_tiles = [(new_Tile 4 0 0)\<lparr>merged := True\<rparr>, new_Tile 2 0 1]"

definition merge_start :: game where
  "merge_start =
     \<lparr> game_tiles = [new_Tile 2 0 0, new_Tile 2 0 1], running = True, animating = False,
       merge_animation_running = False \<rparr>"


text \<open>Every tile of \<open>ts'\<close> has the value it had in \<open>ts\<close> and is not flagged \<open>merged\<close>, or has
  twice that value and is flagged; as many tiles are flagged \<open>merged\<close> as \<open>to_remove\<close>.\<close>

definition merged_once :: "Tile list \<Rightarrow> Tile list \<Rightarrow> bool" where
  "merged_once ts ts' \<longleftrightarrow>
     length ts' = length ts
     \<and> (\<forall>k < length ts. tile_value (ts' ! k) =
            (if merged (ts' ! k) then 2 * tile_value (ts ! k) else tile_value (ts ! k)))
     \<and> length (filter merged ts') = length (filter to_remove ts')"

text \<open>The values a tile stands for: a tile merged in this move stands for the two tiles of
  half its value. A tile flagged \<open>to_remove\<close> stands for nothing.\<close>

definition unmerge :: "Tile \<Rightarrow> int multiset" where
  "unmerge t =
     (if merged t then {#tile_value t div 2, tile_value t div 2#} else {#tile_value t#})"

definition live_mass :: "Tile \<Rightarrow> int multiset" where
  "live_mass t = (if to_remove t then {#} else unmerge t)"

definition live_value :: "Tile \<Rightarrow> int" where
  "live_value t = (if to_remove t then 0 else tile_value t)"

text \<open>The invariant of value conservation.\<close>

definition conserved :: "Tile list \<Rightarrow> Tile list \<Rightarrow> bool" where
  "conserved ts ts' \<longleftrightarrow>
     sum_list (map live_mass ts') = mset (map tile_value ts)
     \<and> sum_list (map live_value ts') = sum_list (map tile_value ts)"

text \<open>A tile merged from: its target is the pixel position of a cell inside the grid, and
  the next cell in the move direction holds a tile flagged \<open>merged\<close>.\<close>

definition absorbed :: "string \<Rightarrow> move_state \<Rightarrow> Tile \<Rightarrow> bool" where
  "absorbed d st t \<longleftrightarrow>
     target_x t = snd (target_cell t) * RECT_WIDTH
     \<and> target_y t = fst (target_cell t) * RECT_HEIGHT
     \<and> inside (target_cell t)
     \<and> (\<exists>j. grid st (nxt d (target_cell t)) = Some j \<and> merged (tiles st ! j))"

text \<open>Tiles flagged \<open>merged\<close> stand on cells already visited; the invariants for the tiles
  merged from, in the outer loop and after the inner loop.\<close>

definition merged_settled :: "(int \<times> int) list \<Rightarrow> move_state \<Rightarrow> bool" where
  "merged_settled rem st \<longleftrightarrow>
     (\<forall>c j. grid st c = Some j \<and> merged (tiles st ! j) \<longrightarrow> c \<notin> set rem)"

definition merge_inv :: "string \<Rightarrow> (int \<times> int) list \<Rightarrow> move_state \<Rightarrow> bool" where
  "merge_inv d rem st \<longleftrightarrow>
     merged_settled rem st
     \<and> (\<forall>k < length (tiles st). to_remove (tiles st ! k) \<longrightarrow> absorbed d st (tiles st ! k))"

definition merge_post :: "string \<Rightarrow> (int \<times> int) list \<Rightarrow> nat \<Rightarrow> int \<times> int \<Rightarrow> move_state \<Rightarrow> bool" where
  "merge_post d rem i cur st \<longleftrightarrow>
     merged_settled rem st
     \<and> (\<forall>k < length (tiles st). k \<noteq> i \<longrightarrow> to_remove (tiles st ! k)
           \<longrightarrow> absorbed d st (tiles st ! k))
     \<and> (to_remove (tiles st ! i) \<longrightarrow>
           (\<exists>j. grid st (nxt d cur) = Some j \<and> merged (tiles st ! j)))"

text \<open>The tile of \<open>ex_tiles\<close> that moving left merges away.\<close>

definition removed_ex :: Tile where
  "removed_ex = (new_Tile 2 0 2)\<lparr>target_x := 200, to_remove := True\<rparr>"

text \<open>The occupied cells of a grid, and their weight: every occupied cell counts one more
  than the steps from it to the border in the move direction.\<close>

definition occupied :: "grid \<Rightarrow> (int \<times> int) set" where
  "occupied g = {c. inside c \<and> g c \<noteq> None}"

definition weight :: "string \<Rightarrow> (int \<times> int) set \<Rightarrow> nat" where
  "weight d S = (\<Sum>c \<in> S. Suc (steps_left d (fst c) (snd c)))"

definition weight_bound :: "string \<Rightarrow> nat \<Rightarrow> move_state \<Rightarrow> bool" where
  "weight_bound d b st \<longleftrightarrow> weight d (occupied (grid st)) + (if moved st then 1 else 0) \<le> b"

text \<open>The grid as positions and values: the pairs of a cell and the value of a tile on it.\<close>

definition placed_values :: "Tile list \<Rightarrow> ((int \<times> int) \<times> int) set" where
  "placed_values ts = (\<lambda>t. (cell t, tile_value t)) ` set ts"

text \<open>The target of the tile is the pixel position of its own cell.\<close>

definition at_rest :: "Tile \<Rightarrow> bool" where
  "at_rest t \<longleftrightarrow> target_x t = col t * RECT_WIDTH \<and> target_y t = row t * RECT_HEIGHT"

text \<open>\<open>t\<close> is \<open>t0\<close> up to the target; the invariant of a move that has not moved anything.\<close>

definition retarget :: "Tile \<Rightarrow> Tile \<Rightarrow> bool" where
  "retarget t0 t \<longleftrightarrow> t = t0\<lparr>target_x := target_x t, target_y := target_y t\<rparr>"

definition unmoved :: "Tile list \<Rightarrow> grid \<Rightarrow> (int \<times> int) list \<Rightarrow> move_state \<Rightarrow> bool" where
  "unmoved ts0 g0 rem st \<longleftrightarrow>
     (\<not> moved st \<longrightarrow>
        grid st = g0 \<and> length (tiles st) = length ts0
        \<and> (\<forall>k < length ts0. retarget (ts0 ! k) (tiles st ! k)
              \<and> (cell (ts0 ! k) \<notin> set rem \<longrightarrow> at_rest (tiles st ! k))))"

text \<open>The row 2 4 2, which cannot move left.\<close>

definition blocked_tiles :: "Tile list" where
  "blocked_tiles = [new_Tile 2 0 0, new_Tile 4 0 1, new_Tile 2 0 2]"

text \<open>The value on a cell (\<open>None\<close> when it is empty), cells next to each other in a row or a
  column, the grid without an empty cell, and a pair of adjacent cells with equal
  values.\<close>

definition value_at :: "Tile list \<Rightarrow> int \<times> int \<Rightarrow> int option" where
  "value_at ts c = map_option tile_value (find (\<lambda>t. cell t = c) ts)"

definition adjacent :: "int \<times> int \<Rightarrow> int \<times> int \<Rightarrow> bool" where
  "adjacent a b \<longleftrightarrow>
     (fst a = fst b \<and> abs (snd a - snd b) = 1) \<or> (snd a = snd b \<and> abs (fst a - fst b) = 1)"

definition grid_full :: "Tile list \<Rightarrow> bool" where
  "grid_full ts = list_all (\<lambda>c. value_at ts c \<noteq> None) all_cells"

definition equal_neighbours :: "Tile list \<Rightarrow> bool" where
  "equal_neighbours ts =
     list_ex (\<lambda>a. list_ex (\<lambda>b. adjacent a b \<and> value_at ts a = value_at ts b) all_cells)
       all_cells"

text \<open>A full grid, 2 and 4 alternating.\<close>

definition full_board :: "Tile list" where
  "full_board = map (\<lambda>(r, c). new_Tile (if (r + c) mod 2 = 0 then 2 else 4) r c) all_cells"


text \<open>The game at the end of the frame in which the left key merged \<open>pair_tiles\<close>.\<close>

definition merge_game :: game where
  "merge_game =
     \<lparr> game_tiles = [(new_Tile 4 0 0)\<lparr>merged := True, merge_anim_counter := 7\<rparr>],
       running = True, animating = True, merge_animation_running = False \<rparr>"

section \<open>Properties\<close>

lemma valid_direction_cases [consumes 1, case_names left right up down]:
  "valid_direction d \<Longrightarrow> (d = ''left'' \<Longrightarrow> P) \<Longrightarrow> (d = ''right'' \<Longrightarrow> P)
     \<Longrightarrow> (d = ''up'' \<Longrightarrow> P) \<Longrightarrow> (d = ''down'' \<Longrightarrow> P) \<Longrightarrow> P"
  unfolding valid_direction_def by blast

lemma next_pos_simps:
  "next_pos ''left'' r c = Some (r, c - 1)"
  "next_pos ''right'' r c = Some (r, c + 1)"
  "next_pos ''up'' r c = Some (r - 1, c)"
  "next_pos ''down'' r c = Some (r + 1, c)"
  by (simp_all add: next_pos_def)

lemma steps_left_simps:
  "steps_left ''left'' r c = nat c"
  "steps_left ''right'' r c = nat (3 - c)"
  "steps_left ''up'' r c = nat r"
  "steps_left ''down'' r c = nat (3 - r)"
  by (simp_all add: steps_left_def ROWS_def COLS_def)

lemma nxt_simps:
  "nxt ''left'' (r, c) = (r, c - 1)"
  "nxt ''right'' (r, c) = (r, c + 1)"
  "nxt ''up'' (r, c) = (r - 1, c)"
  "nxt ''down'' (r, c) = (r + 1, c)"
  by (simp_all add: nxt_def next_pos_simps)

lemma inside_iff: "inside (r, c) \<longleftrightarrow> 0 \<le> r \<and> r < 4 \<and> 0 \<le> c \<and> c < 4"
  by (simp add: inside_def within_grid_def ROWS_def COLS_def)

lemma next_pos_valid: "valid_direction d \<Longrightarrow> next_pos d r c = Some (nxt d (r, c))"
  by (erule valid_direction_cases) (simp_all add: next_pos_simps nxt_simps)

lemma nxt_neq: "valid_direction d \<Longrightarrow> nxt d c \<noteq> c"
  by (cases c, erule valid_direction_cases) (simp_all add: nxt_simps)

lemma steps_left_nxt:
  "valid_direction d \<Longrightarrow> inside (nxt d c) \<Longrightarrow>
     steps_left d (fst (nxt d c)) (snd (nxt d c)) < steps_left d (fst c) (snd c)"
  by (cases c, erule valid_direction_cases)
     (simp_all add: nxt_simps steps_left_simps inside_iff)

lemma slide_unfold:
  assumes "valid_direction d"
  shows "slide d i cur st =
     (if \<not> inside (nxt d cur) then Inr (cur, st)
      else (case grid st (nxt d cur) of
              None \<Rightarrow> slide d i (nxt d cur) (slide_step i cur (nxt d cur) st)
            | Some j \<Rightarrow> if can_merge i j st then Inr (cur, merge_into i j cur st)
                        else Inr (cur, st)))"
proof (cases cur)
  case (Pair cr cc)
  obtain nr nc where n: "nxt d (cr, cc) = (nr, nc)" by (cases "nxt d (cr, cc)")
  have "next_pos d cr cc = Some (nr, nc)"
    using next_pos_valid [OF assms, of cr cc] n by simp
  then show ?thesis
    unfolding Pair n
    by (simp add: slide.simps [of d i cr cc st] inside_def slide_step_def can_merge_def
          split: option.splits)
qed

lemma slide_rule:
  assumes d: "valid_direction d"
    and I: "I cur st"
    and step: "\<And>cur st. I cur st \<Longrightarrow> inside (nxt d cur) \<Longrightarrow> grid st (nxt d cur) = None
                 \<Longrightarrow> I (nxt d cur) (slide_step i cur (nxt d cur) st)"
    and border: "\<And>cur st. I cur st \<Longrightarrow> \<not> inside (nxt d cur) \<Longrightarrow> Q cur st"
    and mrg: "\<And>cur st j. I cur st \<Longrightarrow> inside (nxt d cur) \<Longrightarrow> grid st (nxt d cur) = Some j
                 \<Longrightarrow> can_merge i j st \<Longrightarrow> Q cur (merge_into i j cur st)"
    and block: "\<And>cur st j. I cur st \<Longrightarrow> inside (nxt d cur) \<Longrightarrow> grid st (nxt d cur) = Some j
                 \<Longrightarrow> \<not> can_merge i j st \<Longrightarrow> Q cur st"
  shows "\<exists>cur' st'. slide d i cur st = Inr (cur', st') \<and> Q cur' st'"
  using I
proof (induction "steps_left d (fst cur) (snd cur)" arbitrary: cur st rule: less_induct)
  case less
  show ?case
  proof (cases "inside (nxt d cur)")
    case False
    then show ?thesis
      using border [OF less.prems] by (simp add: slide_unfold [OF d, of i cur st])
  next
    case True
    show ?thesis
    proof (cases "grid st (nxt d cur)")
      case None
      have "\<exists>cur' st'. slide d i (nxt d cur) (slide_step i cur (nxt d cur) st) = Inr (cur', st')
              \<and> Q cur' st'"
        by (rule less.hyps [OF steps_left_nxt [OF d True] step [OF less.prems True None]])
      then show ?thesis
        using True None by (simp add: slide_unfold [OF d, of i cur st])
    next
      case (Some j)
      show ?thesis
      proof (cases "can_merge i j st")
        case True
        then show ?thesis
          using mrg [OF less.prems \<open>inside (nxt d cur)\<close> Some True] Some \<open>inside (nxt d cur)\<close>
          by (simp add: slide_unfold [OF d, of i cur st])
      next
        case False
        then show ?thesis
          using block [OF less.prems \<open>inside (nxt d cur)\<close> Some False] Some \<open>inside (nxt d cur)\<close>
          by (simp add: slide_unfold [OF d, of i cur st])
      qed
    qed
  qed
qed

lemma slide_total:
  "valid_direction d \<Longrightarrow> \<exists>cur' st'. slide d i cur st = Inr (cur', st')"
  using slide_rule [where I = "\<lambda>_ _. True" and Q = "\<lambda>_ _. True" and d = d and i = i
      and cur = cur and st = st]
  by simp

lemma move_loop_rule:
  assumes d: "valid_direction d"
    and I: "I cells st"
    and skip: "\<And>c rem st. I (c # rem) st \<Longrightarrow> grid st c = None \<Longrightarrow> I rem st"
    and visit: "\<And>c rem st i cur st'. I (c # rem) st \<Longrightarrow> grid st c = Some i
                  \<Longrightarrow> slide d i c st = Inr (cur, st') \<Longrightarrow> I rem (set_target i cur st')"
  shows "\<exists>st'. move_loop d cells st = Inr st' \<and> I [] st'"
  using I
proof (induction cells arbitrary: st)
  case Nil
  then show ?case by simp
next
  case (Cons c rem)
  obtain r k where c: "c = (r, k)" by (cases c)
  show ?case
  proof (cases "grid st c")
    case None
    then show ?thesis
      using Cons.IH [OF skip [OF Cons.prems None]] by (simp add: c)
  next
    case (Some i)
    obtain cur st' where s: "slide d i c st = Inr (cur, st')"
      using slide_total [OF d] by blast
    show ?thesis
      using Cons.IH [OF visit [OF Cons.prems Some s]] Some s by (simp add: c)
  qed
qed

lemma grid_atD1:
  "grid_at L st \<Longrightarrow> grid st c = Some k \<Longrightarrow>
     k < length (tiles st) \<and> \<not> to_remove (tiles st ! k) \<and> inside c \<and> L k = c"
  unfolding grid_at_def by blast

lemma grid_atD2:
  "grid_at L st \<Longrightarrow> k < length (tiles st) \<Longrightarrow> \<not> to_remove (tiles st ! k) \<Longrightarrow>
     grid st (L k) = Some k"
  unfolding grid_at_def by blast

lemma grid_at_cong:
  assumes "grid_at L st"
    and "\<And>k. k < length (tiles st) \<Longrightarrow> \<not> to_remove (tiles st ! k) \<Longrightarrow> L' k = L k"
  shows "grid_at L' st"
  unfolding grid_at_def
proof (rule conjI; intro allI impI)
  fix c k assume g: "grid st c = Some k"
  from grid_atD1 [OF assms(1) g] assms(2) [of k]
  show "k < length (tiles st) \<and> \<not> to_remove (tiles st ! k) \<and> inside c \<and> L' k = c"
    by simp
next
  fix k assume "k < length (tiles st)" "\<not> to_remove (tiles st ! k)"
  then show "grid st (L' k) = Some k"
    using grid_atD2 [OF assms(1), of k] assms(2) [of k] by simp
qed

lemma tiles_slide_step [simp]: "tiles (slide_step i cur n st) = tiles st"
  by (simp add: slide_step_def)

lemma grid_slide_step: "grid (slide_step i cur n st) = (grid st)(n \<mapsto> i, cur := None)"
  by (simp add: slide_step_def)

lemma moved_slide_step [simp]: "moved (slide_step i cur n st)"
  by (simp add: slide_step_def)

lemma grid_at_slide_step:
  assumes G: "grid_at (L(i := cur)) st"
    and i: "i < length (tiles st)" "\<not> to_remove (tiles st ! i)"
    and n: "grid st n = None" "inside n"
  shows "grid_at (L(i := n)) (slide_step i cur n st)"
proof -
  have cur: "grid st cur = Some i"
    using grid_atD2 [OF G i] by simp
  have ne: "n \<noteq> cur" using cur n by auto
  show ?thesis
    unfolding grid_at_def
  proof (rule conjI; intro allI impI)
    fix c k assume g: "grid (slide_step i cur n st) c = Some k"
    then have c: "c \<noteq> cur" by (auto simp: grid_slide_step split: if_splits)
    show "k < length (tiles (slide_step i cur n st))
            \<and> \<not> to_remove (tiles (slide_step i cur n st) ! k) \<and> inside c \<and> (L(i := n)) k = c"
    proof (cases "c = n")
      case True
      then have "k = i" using g ne by (simp add: grid_slide_step)
      then show ?thesis using True i n by simp
    next
      case False
      then have g': "grid st c = Some k" using g c by (simp add: grid_slide_step)
      from grid_atD1 [OF G g'] have k: "k < length (tiles st)" "\<not> to_remove (tiles st ! k)"
        "inside c" "(L(i := cur)) k = c" by simp_all
      have "k \<noteq> i" using k(4) c by auto
      then show ?thesis using k by simp
    qed
  next
    fix k assume k: "k < length (tiles (slide_step i cur n st))"
      "\<not> to_remove (tiles (slide_step i cur n st) ! k)"
    show "grid (slide_step i cur n st) ((L(i := n)) k) = Some k"
    proof (cases "k = i")
      case True
      then show ?thesis using ne by (simp add: grid_slide_step)
    next
      case False
      have g: "grid st (L k) = Some k"
        using grid_atD2 [OF G, of k] k False by simp
      have "L k \<noteq> cur" using g cur False by auto
      moreover have "L k \<noteq> n" using g n by auto
      ultimately show ?thesis using g False by (simp add: grid_slide_step)
    qed
  qed
qed

lemma length_merge_into [simp]: "length (tiles (merge_into i j cur st)) = length (tiles st)"
  by (simp add: merge_into_def Let_def)

lemma grid_merge_into: "grid (merge_into i j cur st) = (grid st)(cur := None)"
  by (simp add: merge_into_def Let_def)

lemma moved_merge_into [simp]: "moved (merge_into i j cur st)"
  by (simp add: merge_into_def Let_def)

lemma tiles_merge_into_other:
  "k \<noteq> i \<Longrightarrow> k \<noteq> j \<Longrightarrow> tiles (merge_into i j cur st) ! k = tiles st ! k"
  by (simp add: merge_into_def Let_def)

lemma tiles_merge_into_i:
  "i < length (tiles st) \<Longrightarrow> i \<noteq> j \<Longrightarrow>
     tiles (merge_into i j cur st) ! i = (tiles st ! i)\<lparr>to_remove := True\<rparr>"
  by (simp add: merge_into_def Let_def)

lemma tiles_merge_into_j:
  "j < length (tiles st) \<Longrightarrow> i \<noteq> j \<Longrightarrow>
     tiles (merge_into i j cur st) ! j =
       (tiles st ! j)\<lparr>tile_value := tile_value (tiles st ! j) * 2, merged := True,
                       merge_anim_counter := MERGE_ANIM_DURATION\<rparr>"
  by (simp add: merge_into_def Let_def start_merge_animation_def)

lemma layout_merge_into [simp]:
  "map layout (tiles (merge_into i j cur st)) = map layout (tiles st)"
proof (rule nth_equalityI)
  show "length (map layout (tiles (merge_into i j cur st))) = length (map layout (tiles st))"
    by simp
next
  fix k assume "k < length (map layout (tiles (merge_into i j cur st)))"
  then have k: "k < length (tiles st)" by simp
  have "layout (tiles (merge_into i j cur st) ! k) = layout (tiles st ! k)"
    using k
    by (cases "k = i"; cases "k = j")
       (simp_all add: merge_into_def Let_def start_merge_animation_def layout_def cell_def)
  then show "map layout (tiles (merge_into i j cur st)) ! k = map layout (tiles st) ! k"
    using k by simp
qed

lemma to_remove_merge_into:
  "k < length (tiles st) \<Longrightarrow>
     to_remove (tiles (merge_into i j cur st) ! k) \<longleftrightarrow> k = i \<or> to_remove (tiles st ! k)"
  by (cases "k = i"; cases "k = j")
     (simp_all add: merge_into_def Let_def start_merge_animation_def)

lemma grid_at_neq:
  assumes G: "grid_at (L(i := cur)) st"
    and i: "i < length (tiles st)" "\<not> to_remove (tiles st ! i)"
    and j: "grid st n = Some j" "n \<noteq> cur"
  shows "j \<noteq> i"
  using grid_atD1 [OF G j(1)] j(2) by auto

lemma grid_at_merge_into:
  assumes G: "grid_at (L(i := cur)) st"
    and i: "i < length (tiles st)" "\<not> to_remove (tiles st ! i)"
  shows "grid_at (L(i := cur)) (merge_into i j cur st)"
proof -
  have cur: "grid st cur = Some i"
    using grid_atD2 [OF G i] by simp
  show ?thesis
    unfolding grid_at_def
  proof (rule conjI; intro allI impI)
    fix c k assume g: "grid (merge_into i j cur st) c = Some k"
    then have c: "c \<noteq> cur" and g': "grid st c = Some k"
      by (auto simp: grid_merge_into split: if_splits)
    from grid_atD1 [OF G g'] have k: "k < length (tiles st)" "\<not> to_remove (tiles st ! k)"
      "inside c" "(L(i := cur)) k = c" by simp_all
    have "k \<noteq> i" using k(4) c by auto
    then show "k < length (tiles (merge_into i j cur st))
            \<and> \<not> to_remove (tiles (merge_into i j cur st) ! k) \<and> inside c
            \<and> (L(i := cur)) k = c"
      using k by (simp add: to_remove_merge_into)
  next
    fix k assume k: "k < length (tiles (merge_into i j cur st))"
      "\<not> to_remove (tiles (merge_into i j cur st) ! k)"
    then have k': "k < length (tiles st)" "k \<noteq> i" "\<not> to_remove (tiles st ! k)"
      by (auto simp: to_remove_merge_into)
    have g: "grid st (L k) = Some k"
      using grid_atD2 [OF G k'(1) k'(3)] k'(2) by simp
    have "L k \<noteq> cur" using g cur k'(2) by auto
    then show "grid (merge_into i j cur st) ((L(i := cur)) k) = Some k"
      using g k'(2) by (simp add: grid_merge_into)
  qed
qed

lemma set_range4: "set range4 = {a. 0 \<le> a \<and> a < 4}"
  by (auto simp: range4_def)

lemma set_all_cells: "set all_cells = {c. inside c}"
  by (auto simp: all_cells_def set_range4 inside_def within_grid_def ROWS_def COLS_def)

lemma ordered_cells_distinct: "ordered_cells d cells \<Longrightarrow> distinct cells"
  by (induction cells) auto

lemma ordered_cells_closed:
  assumes "ordered_cells d (c # rem)" "inside a" "a \<notin> set rem"
  shows "nxt d a \<notin> set rem"
proof -
  have "a \<in> set all_cells" using assms(2) by (simp add: set_all_cells)
  then show ?thesis using assms(1,3) by (auto simp: list_all_iff)
qed

lemma traverse_simps:
  "traverse ''left'' = Some left_cells"
  "traverse ''right'' = Some right_cells"
  "traverse ''up'' = Some up_cells"
  "traverse ''down'' = Some down_cells"
  by (simp_all add: traverse_def range4_def left_cells_def right_cells_def up_cells_def
        down_cells_def)

lemma ordered_left: "ordered_cells ''left'' left_cells"
  by code_simp

lemma ordered_right: "ordered_cells ''right'' right_cells"
  by code_simp

lemma ordered_up: "ordered_cells ''up'' up_cells"
  by code_simp

lemma ordered_down: "ordered_cells ''down'' down_cells"
  by code_simp

lemma set_left_cells: "set left_cells = {c. inside c}"
  unfolding set_all_cells [symmetric]
  by (simp add: all_cells_def range4_def left_cells_def)

lemma set_right_cells: "set right_cells = {c. inside c}"
  unfolding set_all_cells [symmetric]
  by (auto simp add: all_cells_def range4_def right_cells_def)

lemma set_up_cells: "set up_cells = {c. inside c}"
  unfolding set_all_cells [symmetric]
  by (auto simp add: all_cells_def range4_def up_cells_def)

lemma set_down_cells: "set down_cells = {c. inside c}"
  unfolding set_all_cells [symmetric]
  by (auto simp add: all_cells_def range4_def down_cells_def)

lemma traverse_valid:
  assumes "valid_direction d"
  shows "\<exists>cells. traverse d = Some cells \<and> ordered_cells d cells \<and> set cells = {c. inside c}"
  using assms
proof (cases rule: valid_direction_cases)
  case left
  show ?thesis unfolding left
    by (intro exI conjI, rule traverse_simps, rule ordered_left, rule set_left_cells)
next
  case right
  show ?thesis unfolding right
    by (intro exI conjI, rule traverse_simps, rule ordered_right, rule set_right_cells)
next
  case up
  show ?thesis unfolding up
    by (intro exI conjI, rule traverse_simps, rule ordered_up, rule set_up_cells)
next
  case down
  show ?thesis unfolding down
    by (intro exI conjI, rule traverse_simps, rule ordered_down, rule set_down_cells)
qed

lemma slide_inv_length: "slide_inv rem ts0 i cur st \<Longrightarrow> length (tiles st) = length ts0"
  unfolding slide_inv_def by (blast dest: map_eq_imp_length_eq)

lemma slide_inv_cur:
  "slide_inv rem ts0 i cur st \<Longrightarrow> \<not> to_remove (tiles st ! i) \<Longrightarrow> grid st cur = Some i"
  using grid_atD2 [of "(\<lambda>k. pos rem (ts0 ! k))(i := cur)" st i] slide_inv_length [of rem ts0 i cur st]
  by (simp add: slide_inv_def)

lemma slide_inv_step:
  assumes I: "slide_inv rem ts0 i cur st" and r: "\<not> to_remove (tiles st ! i)"
    and o: "ordered_cells d (c # rem)"
    and n: "inside (nxt d cur)" "grid st (nxt d cur) = None"
  shows "slide_inv rem ts0 i (nxt d cur) (slide_step i cur (nxt d cur) st)"
proof -
  have len: "length (tiles st) = length ts0" by (rule slide_inv_length [OF I])
  have G: "grid_at ((\<lambda>k. pos rem (ts0 ! k))(i := cur)) st" and i: "i < length ts0"
    and cur: "inside cur" "cur \<notin> set rem"
    using I by (simp_all add: slide_inv_def)
  have "grid_at ((\<lambda>k. pos rem (ts0 ! k))(i := nxt d cur)) (slide_step i cur (nxt d cur) st)"
    using grid_at_slide_step [OF G _ r n(2) n(1)] i len by simp
  moreover have "nxt d cur \<notin> set rem"
    by (rule ordered_cells_closed [OF o cur])
  ultimately show ?thesis
    using I n(1) by (simp add: slide_inv_def)
qed

lemma slide_inv_merge:
  assumes I: "slide_inv rem ts0 i cur st" and r: "\<not> to_remove (tiles st ! i)"
  shows "slide_inv rem ts0 i cur (merge_into i j cur st)"
proof -
  have len: "length (tiles st) = length ts0" by (rule slide_inv_length [OF I])
  have G: "grid_at ((\<lambda>k. pos rem (ts0 ! k))(i := cur)) st" and i: "i < length ts0"
    using I by (simp_all add: slide_inv_def)
  have "grid_at ((\<lambda>k. pos rem (ts0 ! k))(i := cur)) (merge_into i j cur st)"
    using grid_at_merge_into [OF G _ r] i len by simp
  then show ?thesis
    using I by (simp add: slide_inv_def)
qed

lemma slide_inv_neq:
  assumes I: "slide_inv rem ts0 i cur st" and r: "\<not> to_remove (tiles st ! i)"
    and j: "grid st n = Some j" "n \<noteq> cur"
  shows "j \<noteq> i \<and> j < length (tiles st) \<and> \<not> to_remove (tiles st ! j)"
proof -
  have G: "grid_at ((\<lambda>k. pos rem (ts0 ! k))(i := cur)) st"
    using I by (simp add: slide_inv_def)
  show ?thesis
    using grid_atD1 [OF G j(1)] j(2) by auto
qed

lemma pos_layout: "layout a = layout b \<Longrightarrow> pos rem a = pos rem b"
  by (simp add: layout_def pos_def target_cell_def)

lemma pos_Cons: "cell t \<noteq> c \<Longrightarrow> pos (c # rem) t = pos rem t"
  by (simp add: pos_def)

lemma pos_Cons_eq: "cell t = c \<Longrightarrow> pos (c # rem) t = c"
  by (simp add: pos_def)

lemma loop_inv_skip:
  assumes L: "loop_inv (c # rem) st" and g: "grid st c = None"
  shows "loop_inv rem st"
  unfolding loop_inv_def
proof (rule grid_at_cong [OF L [unfolded loop_inv_def]])
  fix k assume k: "k < length (tiles st)" "\<not> to_remove (tiles st ! k)"
  have "cell (tiles st ! k) \<noteq> c"
  proof
    assume "cell (tiles st ! k) = c"
    then have "grid st c = Some k"
      using grid_atD2 [OF L [unfolded loop_inv_def] k] by (simp add: pos_Cons_eq)
    then show False using g by simp
  qed
  then show "pos rem (tiles st ! k) = pos (c # rem) (tiles st ! k)"
    by (simp add: pos_Cons)
qed

lemma loop_inv_enter:
  assumes L: "loop_inv (c # rem) st" and c: "c \<notin> set rem" and g: "grid st c = Some i"
  shows "slide_inv rem (tiles st) i c st \<and> \<not> to_remove (tiles st ! i)
           \<and> cell (tiles st ! i) \<notin> set rem"
proof -
  note G = L [unfolded loop_inv_def]
  from grid_atD1 [OF G g] have i: "i < length (tiles st)" "\<not> to_remove (tiles st ! i)"
    "inside c" "pos (c # rem) (tiles st ! i) = c" by simp_all
  have "grid_at ((\<lambda>k. pos rem (tiles st ! k))(i := c)) st"
  proof (rule grid_at_cong [OF G])
    fix k assume k: "k < length (tiles st)" "\<not> to_remove (tiles st ! k)"
    show "((\<lambda>k. pos rem (tiles st ! k))(i := c)) k = pos (c # rem) (tiles st ! k)"
    proof (cases "k = i")
      case True
      then show ?thesis using i(4) by simp
    next
      case False
      have "cell (tiles st ! k) \<noteq> c"
      proof
        assume "cell (tiles st ! k) = c"
        then have "grid st c = Some k"
          using grid_atD2 [OF G k] by (simp add: pos_Cons_eq)
        then show False using g False by simp
      qed
      then show ?thesis using False by (simp add: pos_Cons)
    qed
  qed
  moreover have "cell (tiles st ! i) \<notin> set rem"
    using i(4) c by (auto simp: pos_def split: if_splits)
  ultimately show ?thesis
    using i c by (simp add: slide_inv_def)
qed

lemma tiles_set_target: "tiles (set_target i cur st) =
    (tiles st)[i := (tiles st ! i)\<lparr>target_x := snd cur * RECT_WIDTH,
                                    target_y := fst cur * RECT_HEIGHT\<rparr>]"
  by (simp add: set_target_def)

lemma grid_set_target [simp]: "grid (set_target i cur st) = grid st"
  by (simp add: set_target_def)

lemma moved_set_target [simp]: "moved (set_target i cur st) = moved st"
  by (simp add: set_target_def)

lemma length_set_target [simp]: "length (tiles (set_target i cur st)) = length (tiles st)"
  by (simp add: set_target_def)

lemma to_remove_set_target [simp]:
  "to_remove (tiles (set_target i cur st) ! k) = to_remove (tiles st ! k)"
  by (cases "k = i"; cases "i < length (tiles st)") (simp_all add: set_target_def list_update_beyond)

lemma target_cell_set:
  "target_cell (t\<lparr>target_x := snd cur * RECT_WIDTH, target_y := fst cur * RECT_HEIGHT\<rparr>) = cur"
  by (simp add: target_cell_def RECT_WIDTH_def RECT_HEIGHT_def WIDTH_def HEIGHT_def
        ROWS_def COLS_def)

lemma grid_at_state_cong:
  assumes "grid_at L st" and "grid st' = grid st" and "length (tiles st') = length (tiles st)"
    and "\<And>k. k < length (tiles st) \<Longrightarrow> to_remove (tiles st' ! k) = to_remove (tiles st ! k)"
    and "\<And>k. k < length (tiles st) \<Longrightarrow> \<not> to_remove (tiles st ! k) \<Longrightarrow> L' k = L k"
  shows "grid_at L' st'"
  unfolding grid_at_def
proof (rule conjI; intro allI impI)
  fix c k assume g: "grid st' c = Some k"
  then have "grid st c = Some k" using assms(2) by simp
  from grid_atD1 [OF assms(1) this] assms(3) assms(4) [of k] assms(5) [of k]
  show "k < length (tiles st') \<and> \<not> to_remove (tiles st' ! k) \<and> inside c \<and> L' k = c"
    by simp
next
  fix k assume "k < length (tiles st')" "\<not> to_remove (tiles st' ! k)"
  then show "grid st' (L' k) = Some k"
    using grid_atD2 [OF assms(1), of k] assms(2) assms(3) assms(4) [of k] assms(5) [of k]
    by simp
qed

lemma loop_inv_leave:
  assumes I: "slide_inv rem ts0 i cur st" and c: "cell (ts0 ! i) \<notin> set rem"
  shows "loop_inv rem (set_target i cur st)"
proof -
  have len: "length (tiles st) = length ts0" by (rule slide_inv_length [OF I])
  have G: "grid_at ((\<lambda>k. pos rem (ts0 ! k))(i := cur)) st" and i: "i < length ts0"
    and lay: "map layout (tiles st) = map layout ts0"
    using I by (simp_all add: slide_inv_def)
  have layk: "layout (tiles st ! k) = layout (ts0 ! k)" if "k < length ts0" for k
    using arg_cong [OF lay, of "\<lambda>xs. xs ! k"] that len by simp
  show ?thesis
    unfolding loop_inv_def
  proof (rule grid_at_state_cong [OF G])
    fix k assume k: "k < length (tiles st)"
    show "pos rem (tiles (set_target i cur st) ! k) = ((\<lambda>k. pos rem (ts0 ! k))(i := cur)) k"
    proof (cases "k = i")
      case True
      have "cell (tiles st ! i) = cell (ts0 ! i)"
        using layk [OF i] by (simp add: layout_def)
      then have "cell ((tiles st ! i)\<lparr>target_x := snd cur * RECT_WIDTH,
                                  target_y := fst cur * RECT_HEIGHT\<rparr>) \<notin> set rem"
        using c by (simp add: cell_def)
      then show ?thesis
        using True i len by (simp add: tiles_set_target pos_def target_cell_set)
    next
      case False
      have "pos rem (tiles st ! k) = pos rem (ts0 ! k)"
        using k len by (intro pos_layout layk) simp
      then show ?thesis
        using False by (simp add: tiles_set_target)
    qed
  qed simp_all
qed

lemma cell_resync: "cell (resync t) = target_cell t"
  by (simp add: cell_def resync_def target_cell_def)

lemma py_index_inside:
  "inside (r, c) \<Longrightarrow> py_index ROWS r = Some r \<and> py_index COLS c = Some c"
  by (simp add: inside_iff py_index_def ROWS_def COLS_def)

lemma place_tiles_Cons_inside:
  "inside (cell t) \<Longrightarrow> place_tiles k (t # ts) g = place_tiles (Suc k) ts (g(cell t \<mapsto> k))"
  using py_index_inside [of "row t" "col t"] by (simp add: cell_def)

lemma place_tiles_ok:
  assumes "\<forall>t \<in> set ts. inside (cell t)" and "distinct (map cell ts)"
  shows "\<exists>g'. place_tiles k ts g = Inr g'
           \<and> (\<forall>c. c \<notin> cell ` set ts \<longrightarrow> g' c = g c)
           \<and> (\<forall>m < length ts. g' (cell (ts ! m)) = Some (k + m))"
  using assms
proof (induction ts arbitrary: k g)
  case Nil
  then show ?case by simp
next
  case (Cons t ts)
  from Cons.prems have t: "inside (cell t)" "cell t \<notin> cell ` set ts"
    and ts: "\<forall>t \<in> set ts. inside (cell t)" "distinct (map cell ts)"
    by simp_all
  from Cons.IH [OF ts, of "Suc k" "g(cell t \<mapsto> k)"]
  obtain g' where g': "place_tiles (Suc k) ts (g(cell t \<mapsto> k)) = Inr g'"
    "\<And>c. c \<notin> cell ` set ts \<Longrightarrow> g' c = (g(cell t \<mapsto> k)) c"
    "\<And>m. m < length ts \<Longrightarrow> g' (cell (ts ! m)) = Some (Suc k + m)"
    by blast
  have "g' (cell ((t # ts) ! m)) = Some (k + m)" if "m < length (t # ts)" for m
  proof (cases m)
    case 0
    then show ?thesis using g'(2) [OF t(2)] by simp
  next
    case (Suc m')
    then show ?thesis using g'(3) [of m'] that by simp
  qed
  moreover have "g' c = g c" if "c \<notin> cell ` set (t # ts)" for c
    using g'(2) [of c] that by simp
  ultimately show ?case
    unfolding place_tiles_Cons_inside [OF t(1)] using g'(1) by blast
qed

lemma build_grid_ok:
  assumes "well_placed ts"
  shows "\<exists>g. build_grid ts = Inr g
           \<and> (\<forall>c. c \<notin> cell ` set ts \<longrightarrow> g c = None)
           \<and> (\<forall>m < length ts. g (cell (ts ! m)) = Some m)"
  using place_tiles_ok [of ts 0 "\<lambda>_. None"] assms
  by (simp add: build_grid_def well_placed_def)

lemma length_reset [simp]: "length (reset_merged_flags ts) = length ts"
  by (simp add: reset_merged_flags_def)

lemma nth_reset:
  "k < length ts \<Longrightarrow> reset_merged_flags ts ! k = (ts ! k)\<lparr>merged := False, to_remove := False\<rparr>"
  by (simp add: reset_merged_flags_def)

lemma map_cell_reset [simp]: "map cell (reset_merged_flags ts) = map cell ts"
  by (simp add: reset_merged_flags_def cell_def)

lemma well_placed_alt:
  "well_placed ts \<longleftrightarrow> distinct (map cell ts) \<and> (\<forall>c \<in> set (map cell ts). inside c)"
  by (simp add: well_placed_def)

lemma well_placed_reset: "well_placed ts \<Longrightarrow> well_placed (reset_merged_flags ts)"
  unfolding well_placed_alt map_cell_reset by assumption

lemma loop_inv_init:
  assumes w: "well_placed ts0" and r: "\<forall>t \<in> set ts0. \<not> to_remove t"
    and g: "\<forall>c. c \<notin> cell ` set ts0 \<longrightarrow> g c = None" "\<forall>m < length ts0. g (cell (ts0 ! m)) = Some m"
    and cells: "set cells = {c. inside c}"
  shows "loop_inv cells \<lparr>tiles = ts0, grid = g, moved = False\<rparr>"
proof -
  have pos: "pos cells (ts0 ! k) = cell (ts0 ! k)" if "k < length ts0" for k
    using w that cells by (simp add: pos_def well_placed_def)
  show ?thesis
    unfolding loop_inv_def grid_at_def
  proof (rule conjI; intro allI impI)
    fix c k assume gc: "grid \<lparr>tiles = ts0, grid = g, moved = False\<rparr> c = Some k"
    then have "g c = Some k" by simp
    then have "c \<in> cell ` set ts0" using g(1) by (metis option.distinct(1))
    then obtain m where m: "m < length ts0" "c = cell (ts0 ! m)"
      by (auto simp: in_set_conv_nth)
    then have "k = m" using g(2) gc by simp
    then show "k < length (tiles \<lparr>tiles = ts0, grid = g, moved = False\<rparr>)
         \<and> \<not> to_remove (tiles \<lparr>tiles = ts0, grid = g, moved = False\<rparr> ! k) \<and> inside c
         \<and> pos cells (tiles \<lparr>tiles = ts0, grid = g, moved = False\<rparr> ! k) = c"
      using m r w pos [of m] by (simp add: well_placed_def)
  next
    fix k assume "k < length (tiles \<lparr>tiles = ts0, grid = g, moved = False\<rparr>)"
    then show "grid \<lparr>tiles = ts0, grid = g, moved = False\<rparr>
                 (pos cells (tiles \<lparr>tiles = ts0, grid = g, moved = False\<rparr> ! k)) = Some k"
      using g(2) pos [of k] by simp
  qed
qed

lemma slide_rule_inv:
  assumes d: "valid_direction d" and o: "ordered_cells d (c # rem)"
    and I: "slide_inv rem ts0 i cur st" "\<not> to_remove (tiles st ! i)" "X cur st"
    and step: "\<And>cur st. slide_inv rem ts0 i cur st \<Longrightarrow> \<not> to_remove (tiles st ! i) \<Longrightarrow> X cur st
        \<Longrightarrow> inside (nxt d cur) \<Longrightarrow> grid st (nxt d cur) = None
        \<Longrightarrow> X (nxt d cur) (slide_step i cur (nxt d cur) st)"
    and border: "\<And>cur st. slide_inv rem ts0 i cur st \<Longrightarrow> \<not> to_remove (tiles st ! i)
        \<Longrightarrow> X cur st \<Longrightarrow> \<not> inside (nxt d cur) \<Longrightarrow> Q cur st"
    and mrg: "\<And>cur st j. slide_inv rem ts0 i cur st \<Longrightarrow> \<not> to_remove (tiles st ! i)
        \<Longrightarrow> X cur st \<Longrightarrow> inside (nxt d cur) \<Longrightarrow> grid st (nxt d cur) = Some j
        \<Longrightarrow> can_merge i j st \<Longrightarrow> j \<noteq> i \<Longrightarrow> j < length (tiles st)
        \<Longrightarrow> \<not> to_remove (tiles st ! j) \<Longrightarrow> Q cur (merge_into i j cur st)"
    and block: "\<And>cur st j. slide_inv rem ts0 i cur st \<Longrightarrow> \<not> to_remove (tiles st ! i)
        \<Longrightarrow> X cur st \<Longrightarrow> inside (nxt d cur) \<Longrightarrow> grid st (nxt d cur) = Some j
        \<Longrightarrow> \<not> can_merge i j st \<Longrightarrow> Q cur st"
  shows "\<exists>cur' st'. slide d i cur st = Inr (cur', st') \<and> slide_inv rem ts0 i cur' st' \<and> Q cur' st'"
proof (rule slide_rule [where I = "\<lambda>cur st. slide_inv rem ts0 i cur st
          \<and> \<not> to_remove (tiles st ! i) \<and> X cur st"
      and Q = "\<lambda>cur st. slide_inv rem ts0 i cur st \<and> Q cur st", OF d])
  show "slide_inv rem ts0 i cur st \<and> \<not> to_remove (tiles st ! i) \<and> X cur st"
    using I by simp
next
  fix cur st
  assume a: "slide_inv rem ts0 i cur st \<and> \<not> to_remove (tiles st ! i) \<and> X cur st"
    and n: "inside (nxt d cur)" "grid st (nxt d cur) = None"
  show "slide_inv rem ts0 i (nxt d cur) (slide_step i cur (nxt d cur) st)
          \<and> \<not> to_remove (tiles (slide_step i cur (nxt d cur) st) ! i)
          \<and> X (nxt d cur) (slide_step i cur (nxt d cur) st)"
    using a slide_inv_step [OF _ _ o n, of ts0 i] step [OF _ _ _ n] by simp
next
  fix cur st
  assume "slide_inv rem ts0 i cur st \<and> \<not> to_remove (tiles st ! i) \<and> X cur st"
    and "\<not> inside (nxt d cur)"
  then show "slide_inv rem ts0 i cur st \<and> Q cur st"
    using border by simp
next
  fix cur st j
  assume a: "slide_inv rem ts0 i cur st \<and> \<not> to_remove (tiles st ! i) \<and> X cur st"
    and n: "inside (nxt d cur)" "grid st (nxt d cur) = Some j" and m: "can_merge i j st"
  from a have a1: "slide_inv rem ts0 i cur st" and a2: "\<not> to_remove (tiles st ! i)" by simp_all
  have "j \<noteq> i \<and> j < length (tiles st) \<and> \<not> to_remove (tiles st ! j)"
    by (rule slide_inv_neq [OF a1 a2 n(2) nxt_neq [OF d]])
  then show "slide_inv rem ts0 i cur (merge_into i j cur st) \<and> Q cur (merge_into i j cur st)"
    using a slide_inv_merge [of rem ts0 i cur st j] mrg [OF _ _ _ n m] by simp
next
  fix cur st j
  assume "slide_inv rem ts0 i cur st \<and> \<not> to_remove (tiles st ! i) \<and> X cur st"
    and "inside (nxt d cur)" "grid st (nxt d cur) = Some j" and "\<not> can_merge i j st"
  then show "slide_inv rem ts0 i cur st \<and> Q cur st"
    using block by simp
qed

lemma slide_keeps_inv:
  assumes d: "valid_direction d" and o: "ordered_cells d (c # rem)"
    and I: "slide_inv rem ts0 i cur st" "\<not> to_remove (tiles st ! i)"
    and s: "slide d i cur st = Inr (cur', st')"
  shows "slide_inv rem ts0 i cur' st'"
  using slide_rule_inv [where X = "\<lambda>_ _. True" and Q = "\<lambda>_ _. True", OF d o I] s by simp

lemma move_loop_rule_inv:
  assumes d: "valid_direction d"
    and I: "ordered_cells d cells" "loop_inv cells st" "X cells st"
    and skip: "\<And>c rem st. ordered_cells d (c # rem) \<Longrightarrow> loop_inv (c # rem) st
        \<Longrightarrow> X (c # rem) st \<Longrightarrow> grid st c = None \<Longrightarrow> X rem st"
    and visit: "\<And>c rem st i cur st'. ordered_cells d (c # rem) \<Longrightarrow> loop_inv (c # rem) st
        \<Longrightarrow> X (c # rem) st \<Longrightarrow> grid st c = Some i
        \<Longrightarrow> slide_inv rem (tiles st) i c st \<Longrightarrow> \<not> to_remove (tiles st ! i)
        \<Longrightarrow> slide d i c st = Inr (cur, st')
        \<Longrightarrow> X rem (set_target i cur st')"
  shows "\<exists>st'. move_loop d cells st = Inr st' \<and> loop_inv [] st' \<and> X [] st'"
proof -
  have "\<exists>st'. move_loop d cells st = Inr st'
          \<and> (ordered_cells d [] \<and> loop_inv [] st' \<and> X [] st')"
  proof (rule move_loop_rule [where I = "\<lambda>cells st. ordered_cells d cells \<and> loop_inv cells st
            \<and> X cells st", OF d])
    show "ordered_cells d cells \<and> loop_inv cells st \<and> X cells st" using I by simp
  next
    fix c rem st
    assume "ordered_cells d (c # rem) \<and> loop_inv (c # rem) st \<and> X (c # rem) st"
      and "grid st c = None"
    then show "ordered_cells d rem \<and> loop_inv rem st \<and> X rem st"
      using loop_inv_skip [of c rem st] skip [of c rem st] by simp
  next
    fix c rem st i cur st'
    assume a: "ordered_cells d (c # rem) \<and> loop_inv (c # rem) st \<and> X (c # rem) st"
      and g: "grid st c = Some i" and s: "slide d i c st = Inr (cur, st')"
    then have o: "ordered_cells d (c # rem)" and c: "c \<notin> set rem" and L: "loop_inv (c # rem) st"
      by simp_all
    note e = loop_inv_enter [OF L c g]
    have "slide_inv rem (tiles st) i cur st'"
      using slide_keeps_inv [OF d o _ _ s] e by simp
    then have "loop_inv rem (set_target i cur st')"
      using loop_inv_leave e by simp
    moreover have "X rem (set_target i cur st')"
      using visit [OF o L _ g _ _ s] a e by simp
    ultimately show "ordered_cells d rem \<and> loop_inv rem (set_target i cur st')
        \<and> X rem (set_target i cur st')"
      using o by simp
  qed
  then show ?thesis by simp
qed

lemma move_run_rule:
  assumes d: "valid_direction d" and w: "well_placed ts"
    and init: "\<And>cells g. traverse d = Some cells \<Longrightarrow> set cells = {c. inside c}
        \<Longrightarrow> build_grid (reset_merged_flags ts) = Inr g
        \<Longrightarrow> \<forall>c. c \<notin> cell ` set ts \<longrightarrow> g c = None
        \<Longrightarrow> \<forall>m < length ts. g (cell (ts ! m)) = Some m
        \<Longrightarrow> X cells \<lparr>tiles = reset_merged_flags ts, grid = g, moved = False\<rparr>"
    and skip: "\<And>c rem st. ordered_cells d (c # rem) \<Longrightarrow> loop_inv (c # rem) st
        \<Longrightarrow> X (c # rem) st \<Longrightarrow> grid st c = None \<Longrightarrow> X rem st"
    and visit: "\<And>c rem st i cur st'. ordered_cells d (c # rem) \<Longrightarrow> loop_inv (c # rem) st
        \<Longrightarrow> X (c # rem) st \<Longrightarrow> grid st c = Some i
        \<Longrightarrow> slide_inv rem (tiles st) i c st \<Longrightarrow> \<not> to_remove (tiles st ! i)
        \<Longrightarrow> slide d i c st = Inr (cur, st')
        \<Longrightarrow> X rem (set_target i cur st')"
  shows "\<exists>st. move_run ts d = Inr st \<and> loop_inv [] st \<and> X [] st"
proof -
  let ?ts0 = "reset_merged_flags ts"
  obtain cells where cells: "traverse d = Some cells" "ordered_cells d cells"
    "set cells = {c. inside c}"
    using traverse_valid [OF d] by blast
  have w0: "well_placed ?ts0" by (rule well_placed_reset [OF w])
  obtain g where g: "build_grid ?ts0 = Inr g"
    "\<forall>c. c \<notin> cell ` set ?ts0 \<longrightarrow> g c = None"
    "\<forall>m < length ?ts0. g (cell (?ts0 ! m)) = Some m"
    using build_grid_ok [OF w0] by blast
  have im: "cell ` set ?ts0 = cell ` set ts"
    using arg_cong [OF map_cell_reset [of ts], of set] by (simp only: set_map)
  have nth: "cell (?ts0 ! m) = cell (ts ! m)" if "m < length ts" for m
    using that by (simp add: nth_reset cell_def)
  have r: "\<forall>t \<in> set ?ts0. \<not> to_remove t"
    by (simp add: reset_merged_flags_def)
  let ?st0 = "\<lparr>tiles = ?ts0, grid = g, moved = False\<rparr>"
  have L: "loop_inv cells ?st0"
    by (rule loop_inv_init [OF w0 r g(2,3) cells(3)])
  have X: "X cells ?st0"
    using init [OF cells(1,3) g(1)] g(2,3) im nth by simp
  have "\<exists>st. move_loop d cells ?st0 = Inr st \<and> loop_inv [] st \<and> X [] st"
    apply (rule move_loop_rule_inv [where X = X, OF d cells(2) L X])
     apply (rule skip; assumption)
    apply (rule visit; assumption)
    done
  then obtain st where st: "move_loop d cells ?st0 = Inr st" "loop_inv [] st" "X [] st"
    by blast
  show ?thesis
    using st g(1) cells(1) by (simp add: move_run_def)
qed

lemma distinct_map_filter_index:
  assumes "\<forall>k < length xs. P (xs ! k) \<longrightarrow> g (f (xs ! k)) = Some k"
  shows "distinct (map f (filter P xs))"
  using assms
proof (induction xs rule: rev_induct)
  case Nil
  then show ?case by simp
next
  case (snoc x xs)
  have IH: "distinct (map f (filter P xs))"
  proof (rule snoc.IH, intro allI impI)
    fix k assume "k < length xs" "P (xs ! k)"
    then show "g (f (xs ! k)) = Some k"
      using snoc.prems [rule_format, of k] by (simp add: nth_append)
  qed
  show ?case
  proof (cases "P x")
    case False
    then show ?thesis using IH by simp
  next
    case True
    have x: "g (f x) = Some (length xs)"
      using snoc.prems [rule_format, of "length xs"] True by simp
    have "f x \<notin> f ` set (filter P xs)"
    proof
      assume "f x \<in> f ` set (filter P xs)"
      then obtain y where y: "y \<in> set xs" "P y" "f y = f x" by auto
      then obtain k where k: "k < length xs" "xs ! k = y" by (auto simp: in_set_conv_nth)
      then have "g (f y) = Some k"
        using snoc.prems [rule_format, of k] y by (simp add: nth_append)
      then show False using x y k by simp
    qed
    then show ?thesis using IH True by simp
  qed
qed

lemma pos_Nil [simp]: "pos [] t = target_cell t"
  by (simp add: pos_def)

lemma move_run_move:
  "move_run ts d = Inr st \<Longrightarrow>
     move ts d = (filter (\<lambda>t. \<not> to_remove t) (tiles st), Inr (moved st))"
  by (simp add: move_def)

lemma move_run_unpurged: "move_run ts d = Inr st \<Longrightarrow> unpurged ts d = tiles st"
  by (simp add: unpurged_def)

lemma loop_inv_final_distinct:
  assumes "loop_inv [] st"
  shows "well_placed (map resync (filter (\<lambda>t. \<not> to_remove t) (tiles st)))"
proof -
  note G = assms [unfolded loop_inv_def pos_Nil]
  have "distinct (map target_cell (filter (\<lambda>t. \<not> to_remove t) (tiles st)))"
    by (rule distinct_map_filter_index [where g = "grid st"]) (simp add: grid_atD2 [OF G])
  moreover have "inside (target_cell t)" if t: "t \<in> set (tiles st)" "\<not> to_remove t" for t
  proof -
    obtain k where k: "k < length (tiles st)" "tiles st ! k = t"
      using t(1) unfolding in_set_conv_nth by blast
    then have "grid st (target_cell t) = Some k"
      using grid_atD2 [OF G, of k] t(2) by simp
    then show ?thesis using grid_atD1 [OF G] by blast
  qed
  ultimately show ?thesis
    by (simp add: well_placed_def comp_def cell_resync)
qed

text \<open>
  C4: for a tile collection with pairwise distinct cells inside the grid and a valid
  direction, \<^verbatim>\<open>move\<close> returns, and the tiles it leaves in the collection have pairwise
  distinct target cells inside the grid: once their rows and columns are resynchronised
  from the targets, as \<^verbatim>\<open>main\<close> does when the animation ends, no two tiles share a cell.
\<close>

theorem move_cells_stay_distinct:
  assumes "valid_direction d" and "well_placed ts"
  shows "(\<exists>b. snd (move ts d) = Inr b) \<and> well_placed (map resync (fst (move ts d)))"
proof -
  obtain st where st: "move_run ts d = Inr st" "loop_inv [] st"
    using move_run_rule [where X = "\<lambda>_ _. True", OF assms] by auto
  show ?thesis
    using loop_inv_final_distinct [OF st(2)] by (simp add: move_run_move [OF st(1)])
qed

lemma valid_direction_simps [simp]:
  "valid_direction ''left''" "valid_direction ''right''"
  "valid_direction ''up''" "valid_direction ''down''"
  by (simp_all add: valid_direction_def)

lemma well_placed_ex: "well_placed ex_tiles"
  by (simp add: well_placed_def ex_tiles_def new_Tile_def cell_def inside_iff)

theorem move_cells_stay_distinct_witness:
  "valid_direction ''left'' \<and> well_placed ex_tiles
   \<and> (\<exists>b. snd (move ex_tiles ''left'') = Inr b)
   \<and> well_placed (map resync (fst (move ex_tiles ''left'')))"
  using move_cells_stay_distinct [OF valid_direction_simps(1) well_placed_ex]
    well_placed_ex by simp

lemma traverse_invalid: "\<not> valid_direction d \<Longrightarrow> traverse d = None"
  by (simp add: valid_direction_def traverse_def)

text \<open>
  C1 (as amended): given a direction that is none of the four, \<^verbatim>\<open>move\<close> returns nothing:
  it resets the flags \<open>merged\<close> and \<open>to_remove\<close> of every tile, builds the grid and raises
  TypeError at the traversal (IndexError before that when a tile does not index the
  grid). Membership, values, positions, targets and merge counters stay as they were.
  The control loop never makes such a call: a key that is no arrow key has no
  direction and is skipped.
\<close>

theorem move_invalid_direction:
  assumes "\<not> valid_direction d"
  shows "move ts d =
           (reset_merged_flags ts,
            Inl (case build_grid (reset_merged_flags ts) of Inl e \<Rightarrow> e | Inr g \<Rightarrow> TypeError))
         \<and> handle_events (KEYDOWN K_OTHER # es) gm = handle_events es gm"
  using traverse_invalid [OF assms]
  by (simp add: move_def move_run_def Let_def split: sum.splits)

theorem move_invalid_direction_witness:
  "\<not> valid_direction ''diagonal''
   \<and> move stale_tiles ''diagonal'' =
       (reset_merged_flags stale_tiles,
        Inl (case build_grid (reset_merged_flags stale_tiles) of
               Inl e \<Rightarrow> e | Inr g \<Rightarrow> TypeError))
   \<and> handle_events [KEYDOWN K_OTHER] merge_start = handle_events [] merge_start"
proof -
  have h: "\<not> valid_direction ''diagonal''" by (simp add: valid_direction_def)
  show ?thesis
    using h move_invalid_direction [OF h, of stale_tiles "[]" merge_start] by simp
qed

text \<open>
  C1 as stated fails: with the direction \<open>''diagonal''\<close> the call raises TypeError
  instead of returning False, and the \<open>merged\<close> flag a tile kept from the move before
  is reset.
\<close>

theorem move_invalid_direction_counterexample:
  "\<not> valid_direction ''diagonal''
   \<and> move stale_tiles ''diagonal'' = ([new_Tile 4 0 0, new_Tile 2 0 1], Inl TypeError)
   \<and> snd (move stale_tiles ''diagonal'') \<noteq> Inr False
   \<and> fst (move stale_tiles ''diagonal'') \<noteq> stale_tiles"
  by code_simp

lemma keeps_frame_refl: "keeps_frame t t"
  by (simp add: keeps_frame_def)










lemma length_filter_update:
  "k < length xs \<Longrightarrow>
     length (filter P (xs[k := x])) + (if P (xs ! k) then 1 else 0)
       = length (filter P xs) + (if P x then 1 else 0)"
proof (induction xs arbitrary: k)
  case Nil
  then show ?case by simp
next
  case (Cons a xs)
  show ?case
  proof (cases k)
    case 0
    then show ?thesis by simp
  next
    case (Suc k')
    then show ?thesis using Cons.IH [of k'] Cons.prems by simp
  qed
qed

lemma sum_list_map_update:
  fixes f :: "'a \<Rightarrow> 'b::comm_monoid_add"
  shows "k < length xs \<Longrightarrow>
     sum_list (map f (xs[k := x])) + f (xs ! k) = sum_list (map f xs) + f x"
proof (induction xs arbitrary: k)
  case Nil
  then show ?case by simp
next
  case (Cons a xs)
  show ?case
  proof (cases k)
    case 0
    then show ?thesis by (simp add: ac_simps)
  next
    case (Suc k')
    have "sum_list (map f (xs[k' := x])) + f (xs ! k') = sum_list (map f xs) + f x"
      using Cons.IH [of k'] Cons.prems Suc by simp
    then show ?thesis using Suc by (simp add: add.assoc)
  qed
qed

lemma sum_list_map_update_same:
  fixes f :: "'a \<Rightarrow> 'b::cancel_comm_monoid_add"
  assumes "k < length xs \<Longrightarrow> f x = f (xs ! k)"
  shows "sum_list (map f (xs[k := x])) = sum_list (map f xs)"
proof (cases "k < length xs")
  case True
  then show ?thesis using sum_list_map_update [of k xs f x] assms by simp
next
  case False
  then show ?thesis by (simp add: list_update_beyond not_less)
qed

lemma length_filter_update_same:
  assumes "k < length xs \<Longrightarrow> P x = P (xs ! k)"
  shows "length (filter P (xs[k := x])) = length (filter P xs)"
proof (cases "k < length xs")
  case True
  then show ?thesis using length_filter_update [of k xs P x] assms by simp
next
  case False
  then show ?thesis by (simp add: list_update_beyond not_less)
qed

lemma merge_into_count_merged:
  assumes "i < length (tiles st)" "j < length (tiles st)" "j \<noteq> i" "\<not> merged (tiles st ! j)"
  shows "length (filter merged (tiles (merge_into i j cur st)))
           = Suc (length (filter merged (tiles st)))"
proof -
  let ?a = "start_merge_animation
      ((tiles st ! j)\<lparr>tile_value := tile_value (tiles st ! j) * 2, merged := True\<rparr>)"
  let ?ts1 = "(tiles st)[j := ?a]"
  have 1: "length (filter merged ?ts1) = Suc (length (filter merged (tiles st)))"
    using length_filter_update [of j "tiles st" merged ?a] assms
    by (simp add: start_merge_animation_def)
  have 2: "length (filter merged (?ts1[i := (?ts1 ! i)\<lparr>to_remove := True\<rparr>]))
             = length (filter merged ?ts1)"
    by (rule length_filter_update_same) simp
  show ?thesis using 1 2 by (simp add: merge_into_def Let_def)
qed

lemma merge_into_count_removed:
  assumes "i < length (tiles st)" "j < length (tiles st)" "j \<noteq> i"
    "\<not> to_remove (tiles st ! i)"
  shows "length (filter to_remove (tiles (merge_into i j cur st)))
           = Suc (length (filter to_remove (tiles st)))"
proof -
  let ?a = "start_merge_animation
      ((tiles st ! j)\<lparr>tile_value := tile_value (tiles st ! j) * 2, merged := True\<rparr>)"
  let ?ts1 = "(tiles st)[j := ?a]"
  have 1: "length (filter to_remove ?ts1) = length (filter to_remove (tiles st))"
    by (rule length_filter_update_same) (simp add: start_merge_animation_def)
  have 2: "length (filter to_remove (?ts1[i := (?ts1 ! i)\<lparr>to_remove := True\<rparr>]))
             = Suc (length (filter to_remove ?ts1))"
    using length_filter_update [of i ?ts1 to_remove "(?ts1 ! i)\<lparr>to_remove := True\<rparr>"] assms
    by simp
  show ?thesis using 1 2 by (simp add: merge_into_def Let_def)
qed

lemma merged_merge_into:
  "k < length (tiles st) \<Longrightarrow> j \<noteq> i \<Longrightarrow>
     merged (tiles (merge_into i j cur st) ! k) \<longleftrightarrow> k = j \<or> merged (tiles st ! k)"
  by (cases "k = i"; cases "k = j")
     (simp_all add: merge_into_def Let_def start_merge_animation_def)

lemma tile_value_merge_into:
  "k < length (tiles st) \<Longrightarrow> j \<noteq> i \<Longrightarrow>
     tile_value (tiles (merge_into i j cur st) ! k)
       = (if k = j then tile_value (tiles st ! k) * 2 else tile_value (tiles st ! k))"
  by (cases "k = i"; cases "k = j")
     (simp_all add: merge_into_def Let_def start_merge_animation_def)

lemma merged_once_merge_into:
  assumes m: "merged_once ts (tiles st)"
    and ij: "i < length (tiles st)" "j < length (tiles st)" "j \<noteq> i"
    and r: "\<not> to_remove (tiles st ! i)" and c: "can_merge i j st"
  shows "merged_once ts (tiles (merge_into i j cur st))"
proof -
  have len: "length (tiles st) = length ts"
    and val: "\<And>k. k < length ts \<Longrightarrow> tile_value (tiles st ! k) =
            (if merged (tiles st ! k) then 2 * tile_value (ts ! k) else tile_value (ts ! k))"
    and cnt: "length (filter merged (tiles st)) = length (filter to_remove (tiles st))"
    using m by (simp_all add: merged_once_def)
  have nm: "\<not> merged (tiles st ! j)" using c by (simp add: can_merge_def)
  have "tile_value (tiles (merge_into i j cur st) ! k) =
          (if merged (tiles (merge_into i j cur st) ! k) then 2 * tile_value (ts ! k)
           else tile_value (ts ! k))" if k: "k < length ts" for k
    using val [OF k] k len ij(3) nm
    by (cases "k = j") (simp_all add: tile_value_merge_into merged_merge_into)
  moreover have "length (filter merged (tiles (merge_into i j cur st)))
      = length (filter to_remove (tiles (merge_into i j cur st)))"
    using merge_into_count_merged [OF ij nm] merge_into_count_removed [OF ij r] cnt by simp
  ultimately show ?thesis using len by (simp add: merged_once_def)
qed

lemma merged_once_set_target:
  assumes m: "merged_once ts (tiles st)"
  shows "merged_once ts (tiles (set_target i cur st))"
proof -
  let ?t = "(tiles st ! i)\<lparr>target_x := snd cur * RECT_WIDTH, target_y := fst cur * RECT_HEIGHT\<rparr>"
  have 1: "length (filter merged ((tiles st)[i := ?t])) = length (filter merged (tiles st))"
    by (rule length_filter_update_same) simp
  have 2: "length (filter to_remove ((tiles st)[i := ?t])) = length (filter to_remove (tiles st))"
    by (rule length_filter_update_same) simp
  have 3: "tile_value ((tiles st)[i := ?t] ! k) = tile_value (tiles st ! k)
           \<and> merged ((tiles st)[i := ?t] ! k) = merged (tiles st ! k)" if "k < length (tiles st)" for k
    using that by (cases "k = i") simp_all
  show ?thesis
    using m 1 2 3 by (simp add: merged_once_def tiles_set_target)
qed

lemma merged_once_reset: "merged_once ts (reset_merged_flags ts)"
  by (simp add: merged_once_def nth_reset reset_merged_flags_def filter_map comp_def)

lemma merged_once_slide:
  assumes d: "valid_direction d" and o: "ordered_cells d (c # rem)"
    and I: "slide_inv rem ts0 i cur st" "\<not> to_remove (tiles st ! i)"
    and m: "merged_once ts (tiles st)"
    and s: "slide d i cur st = Inr (cur', st')"
  shows "merged_once ts (tiles st')"
proof -
  have "\<exists>cur' st'. slide d i cur st = Inr (cur', st') \<and> slide_inv rem ts0 i cur' st'
          \<and> merged_once ts (tiles st')"
  proof (rule slide_rule_inv [where X = "\<lambda>_ st. merged_once ts (tiles st)", OF d o I m])
    fix cur st j
    assume "slide_inv rem ts0 i cur st" "\<not> to_remove (tiles st ! i)" "merged_once ts (tiles st)"
      "can_merge i j st" "j \<noteq> i" "j < length (tiles st)"
    then show "merged_once ts (tiles (merge_into i j cur st))"
      using merged_once_merge_into [of ts st i j cur] slide_inv_length [of rem ts0 i cur st]
      by (simp add: slide_inv_def)
  qed simp_all
  then show ?thesis using s by simp
qed

text \<open>
  C3: for a tile collection with pairwise distinct cells inside the grid and a valid
  direction, \<^verbatim>\<open>move\<close> returns, and every tile (identified by its place in the list
  \<open>unpurged ts d\<close> of the tiles before the purge) has either its old value and \<open>merged\<close> unset, or twice its old
  value and \<open>merged\<close> set; there are as many tiles flagged \<open>merged\<close> as tiles flagged
  \<open>to_remove\<close>, so a tile that was doubled absorbed exactly one tile.
\<close>

theorem move_merges_once:
  assumes "valid_direction d" and "well_placed ts"
  shows "merged_once ts (unpurged ts d)
         \<and> fst (move ts d) = filter (\<lambda>t. \<not> to_remove t) (unpurged ts d)
         \<and> (\<exists>b. snd (move ts d) = Inr b)"
proof -
  have "\<exists>st. move_run ts d = Inr st \<and> loop_inv [] st \<and> merged_once ts (tiles st)"
  proof (rule move_run_rule [where X = "\<lambda>_ st. merged_once ts (tiles st)", OF assms])
    fix cells g
    show "merged_once ts (tiles \<lparr>tiles = reset_merged_flags ts, grid = g, moved = False\<rparr>)"
      by (simp add: merged_once_reset)
  next
    fix c rem st i cur st'
    assume "ordered_cells d (c # rem)" "merged_once ts (tiles st)"
      "slide_inv rem (tiles st) i c st" "\<not> to_remove (tiles st ! i)"
      "slide d i c st = Inr (cur, st')"
    then show "merged_once ts (tiles (set_target i cur st'))"
      using merged_once_slide [OF assms(1)] merged_once_set_target by blast
  qed
  then obtain st where "move_run ts d = Inr st" "merged_once ts (tiles st)" by blast
  then show ?thesis
    using move_run_move [of ts d st] move_run_unpurged [of ts d st] by simp
qed

theorem move_merges_once_witness:
  "valid_direction ''left'' \<and> well_placed ex_tiles
   \<and> merged_once ex_tiles (unpurged ex_tiles ''left'')
   \<and> fst (move ex_tiles ''left'') = filter (\<lambda>t. \<not> to_remove t) (unpurged ex_tiles ''left'')
   \<and> (\<exists>b. snd (move ex_tiles ''left'') = Inr b)"
  using move_merges_once [OF valid_direction_simps(1) well_placed_ex] well_placed_ex
  by simp

lemma sum_list_singletons: "sum_list (map (\<lambda>x. {#f x#}) xs) = mset (map f xs)"
  by (induction xs) simp_all

lemma conserved_reset: "conserved ts (reset_merged_flags ts)"
proof -
  have "map live_mass (reset_merged_flags ts) = map (\<lambda>t. {#tile_value t#}) ts"
    by (simp add: reset_merged_flags_def live_mass_def unmerge_def)
  moreover have "map live_value (reset_merged_flags ts) = map tile_value ts"
    by (simp add: reset_merged_flags_def live_value_def)
  ultimately show ?thesis
    by (simp add: conserved_def sum_list_singletons)
qed

lemma live_mass_merge_into:
  assumes ij: "i < length (tiles st)" "j < length (tiles st)" "j \<noteq> i"
    and r: "\<not> to_remove (tiles st ! i)" "\<not> to_remove (tiles st ! j)"
    and c: "can_merge i j st"
  shows "sum_list (map live_mass (tiles (merge_into i j cur st)))
           = sum_list (map live_mass (tiles st))"
proof -
  let ?v = "tile_value (tiles st ! i)"
  let ?a = "start_merge_animation
      ((tiles st ! j)\<lparr>tile_value := tile_value (tiles st ! j) * 2, merged := True\<rparr>)"
  let ?ts1 = "(tiles st)[j := ?a]"
  let ?b = "(?ts1 ! i)\<lparr>to_remove := True\<rparr>"
  from c have v: "tile_value (tiles st ! j) = ?v" "\<not> merged (tiles st ! i)"
    "\<not> merged (tiles st ! j)" by (simp_all add: can_merge_def)
  have a: "live_mass ?a = {#?v, ?v#}" "live_mass (tiles st ! j) = {#?v#}"
    using v r by (simp_all add: live_mass_def unmerge_def start_merge_animation_def)
  have b: "live_mass ?b = {#}" "live_mass (?ts1 ! i) = {#?v#}"
    using v r ij by (simp_all add: live_mass_def unmerge_def)
  have 1: "sum_list (map live_mass ?ts1) + {#?v#} = sum_list (map live_mass (tiles st)) + {#?v, ?v#}"
    using sum_list_map_update [OF ij(2), of live_mass ?a] a by simp
  have 2: "sum_list (map live_mass (?ts1[i := ?b])) + {#?v#} = sum_list (map live_mass ?ts1)"
    using sum_list_map_update [of i ?ts1 live_mass ?b] ij(1) b by simp
  have "sum_list (map live_mass (?ts1[i := ?b])) + {#?v, ?v#}
          = sum_list (map live_mass (tiles st)) + {#?v, ?v#}"
    using 1 2 by (metis add.assoc add_mset_add_single union_mset_add_mset_right add.right_neutral)
  then have "sum_list (map live_mass (?ts1[i := ?b])) = sum_list (map live_mass (tiles st))"
    by simp
  then show ?thesis by (simp add: merge_into_def Let_def)
qed

lemma live_value_merge_into:
  assumes ij: "i < length (tiles st)" "j < length (tiles st)" "j \<noteq> i"
    and r: "\<not> to_remove (tiles st ! i)" "\<not> to_remove (tiles st ! j)"
    and c: "can_merge i j st"
  shows "sum_list (map live_value (tiles (merge_into i j cur st)))
           = sum_list (map live_value (tiles st))"
proof -
  let ?v = "tile_value (tiles st ! i)"
  let ?a = "start_merge_animation
      ((tiles st ! j)\<lparr>tile_value := tile_value (tiles st ! j) * 2, merged := True\<rparr>)"
  let ?ts1 = "(tiles st)[j := ?a]"
  let ?b = "(?ts1 ! i)\<lparr>to_remove := True\<rparr>"
  from c have v: "tile_value (tiles st ! j) = ?v" by (simp add: can_merge_def)
  have a: "live_value ?a = 2 * ?v" "live_value (tiles st ! j) = ?v"
    using v r by (simp_all add: live_value_def start_merge_animation_def)
  have b: "live_value ?b = 0" "live_value (?ts1 ! i) = ?v"
    using v r ij by (simp_all add: live_value_def)
  have 1: "sum_list (map live_value ?ts1) + ?v = sum_list (map live_value (tiles st)) + 2 * ?v"
    using sum_list_map_update [OF ij(2), of live_value ?a] a by simp
  have 2: "sum_list (map live_value (?ts1[i := ?b])) + ?v = sum_list (map live_value ?ts1)"
    using sum_list_map_update [of i ?ts1 live_value ?b] ij(1) b by simp
  have "sum_list (map live_value (?ts1[i := ?b])) = sum_list (map live_value (tiles st))"
    using 1 2 by linarith
  then show ?thesis by (simp add: merge_into_def Let_def)
qed

lemma conserved_set_target:
  assumes "conserved ts (tiles st)"
  shows "conserved ts (tiles (set_target i cur st))"
proof -
  let ?t = "(tiles st ! i)\<lparr>target_x := snd cur * RECT_WIDTH, target_y := fst cur * RECT_HEIGHT\<rparr>"
  have 1: "sum_list (map live_mass ((tiles st)[i := ?t])) = sum_list (map live_mass (tiles st))"
    by (rule sum_list_map_update_same) (simp add: live_mass_def unmerge_def)
  have 2: "sum_list (map live_value ((tiles st)[i := ?t])) = sum_list (map live_value (tiles st))"
    by (rule sum_list_map_update_same) (simp add: live_value_def)
  show ?thesis using assms 1 2 by (simp add: conserved_def tiles_set_target)
qed

lemma conserved_slide:
  assumes d: "valid_direction d" and o: "ordered_cells d (c # rem)"
    and I: "slide_inv rem ts0 i cur st" "\<not> to_remove (tiles st ! i)"
    and m: "conserved ts (tiles st)"
    and s: "slide d i cur st = Inr (cur', st')"
  shows "conserved ts (tiles st')"
proof -
  have "\<exists>cur' st'. slide d i cur st = Inr (cur', st') \<and> slide_inv rem ts0 i cur' st'
          \<and> conserved ts (tiles st')"
  proof (rule slide_rule_inv [where X = "\<lambda>_ st. conserved ts (tiles st)", OF d o I m])
    fix cur st j
    assume a: "slide_inv rem ts0 i cur st" "\<not> to_remove (tiles st ! i)"
      "conserved ts (tiles st)" "can_merge i j st" "j \<noteq> i" "j < length (tiles st)"
      "\<not> to_remove (tiles st ! j)"
    have i: "i < length (tiles st)"
      using a(1) slide_inv_length [OF a(1)] by (simp add: slide_inv_def)
    show "conserved ts (tiles (merge_into i j cur st))"
      using a(3) live_mass_merge_into [OF i a(6,5,2,7,4)] live_value_merge_into [OF i a(6,5,2,7,4)]
      by (simp add: conserved_def)
  qed simp_all
  then show ?thesis using s by simp
qed

lemma sum_list_live_mass:
  "sum_list (map live_mass ts) = sum_list (map unmerge (filter (\<lambda>t. \<not> to_remove t) ts))"
  by (induction ts) (simp_all add: live_mass_def)

lemma sum_list_live_value:
  "sum_list (map live_value ts) = sum_list (map tile_value (filter (\<lambda>t. \<not> to_remove t) ts))"
  by (induction ts) (simp_all add: live_value_def)

text \<open>
  C5: for a tile collection with pairwise distinct cells inside the grid and a valid
  direction, \<^verbatim>\<open>move\<close> returns and conserves the values: splitting every tile flagged
  \<open>merged\<close> of the result into two tiles of half its value gives the multiset of values
  before the call, and the sum of the values after the call is the sum before it.
\<close>

theorem move_conserves_value:
  assumes "valid_direction d" and "well_placed ts"
  shows "(\<exists>b. snd (move ts d) = Inr b)
         \<and> sum_list (map unmerge (fst (move ts d))) = mset (map tile_value ts)
         \<and> sum_list (map tile_value (fst (move ts d))) = sum_list (map tile_value ts)"
proof -
  have "\<exists>st. move_run ts d = Inr st \<and> loop_inv [] st \<and> conserved ts (tiles st)"
  proof (rule move_run_rule [where X = "\<lambda>_ st. conserved ts (tiles st)", OF assms])
    fix cells g
    show "conserved ts (tiles \<lparr>tiles = reset_merged_flags ts, grid = g, moved = False\<rparr>)"
      by (simp add: conserved_reset)
  next
    fix c rem st i cur st'
    assume "ordered_cells d (c # rem)" "conserved ts (tiles st)"
      "slide_inv rem (tiles st) i c st" "\<not> to_remove (tiles st ! i)"
      "slide d i c st = Inr (cur, st')"
    then show "conserved ts (tiles (set_target i cur st'))"
      using conserved_slide [OF assms(1)] conserved_set_target by blast
  qed
  then obtain st where st: "move_run ts d = Inr st" "conserved ts (tiles st)" by blast
  show ?thesis
    using st(2) unfolding move_run_move [OF st(1)] conserved_def
      sum_list_live_mass sum_list_live_value
    by simp
qed

theorem move_conserves_value_witness:
  "valid_direction ''left'' \<and> well_placed ex_tiles
   \<and> (\<exists>b. snd (move ex_tiles ''left'') = Inr b)
   \<and> sum_list (map unmerge (fst (move ex_tiles ''left''))) = mset (map tile_value ex_tiles)
   \<and> sum_list (map tile_value (fst (move ex_tiles ''left'')))
       = sum_list (map tile_value ex_tiles)"
  using move_conserves_value [OF valid_direction_simps(1) well_placed_ex] well_placed_ex
  by simp

lemma merged_settledD:
  "merged_settled rem st \<Longrightarrow> grid st c = Some j \<Longrightarrow> merged (tiles st ! j) \<Longrightarrow> c \<notin> set rem"
  unfolding merged_settled_def by blast

lemma slide_inv_grid_at:
  "slide_inv rem ts0 i cur st \<Longrightarrow> grid_at ((\<lambda>k. pos rem (ts0 ! k))(i := cur)) st"
  by (simp add: slide_inv_def)

lemma slide_inv_unique:
  assumes "slide_inv rem ts0 i cur st" "grid st a = Some j" "grid st b = Some j"
  shows "a = b"
  using grid_atD1 [OF slide_inv_grid_at [OF assms(1)] assms(2)]
    grid_atD1 [OF slide_inv_grid_at [OF assms(1)] assms(3)] by simp

lemma merge_inv_step:
  assumes d: "valid_direction d" and o: "ordered_cells d (c # rem)"
    and I: "slide_inv rem ts0 i cur st" "\<not> to_remove (tiles st ! i)"
    and X: "merge_inv d rem st \<and> \<not> merged (tiles st ! i)"
    and n: "inside (nxt d cur)" "grid st (nxt d cur) = None"
  shows "merge_inv d rem (slide_step i cur (nxt d cur) st)
           \<and> \<not> merged (tiles (slide_step i cur (nxt d cur) st) ! i)"
proof -
  let ?st' = "slide_step i cur (nxt d cur) st"
  have cur: "grid st cur = Some i" by (rule slide_inv_cur [OF I])
  have curI: "inside cur" "cur \<notin> set rem" using I(1) by (simp_all add: slide_inv_def)
  have nrem: "nxt d cur \<notin> set rem" by (rule ordered_cells_closed [OF o curI])
  have M: "merged_settled rem st" using X by (simp add: merge_inv_def)
  have "merged_settled rem ?st'"
    unfolding merged_settled_def
  proof (intro allI impI)
    fix a j assume a: "grid ?st' a = Some j \<and> merged (tiles ?st' ! j)"
    show "a \<notin> set rem"
    proof (cases "a = nxt d cur")
      case True
      then show ?thesis using nrem by simp
    next
      case False
      then have "grid st a = Some j" using a by (auto simp: grid_slide_step split: if_splits)
      moreover have "merged (tiles st ! j)" using a by simp
      ultimately show ?thesis by (rule merged_settledD [OF M])
    qed
  qed
  moreover have "absorbed d ?st' (tiles ?st' ! k)"
    if k: "k < length (tiles ?st')" "to_remove (tiles ?st' ! k)" for k
  proof -
    have ab: "absorbed d st (tiles st ! k)" using X k by (simp add: merge_inv_def)
    then obtain j where j: "grid st (nxt d (target_cell (tiles st ! k))) = Some j"
      "merged (tiles st ! j)" by (auto simp: absorbed_def)
    have "nxt d (target_cell (tiles st ! k)) \<noteq> cur" using j cur X by auto
    moreover have "nxt d (target_cell (tiles st ! k)) \<noteq> nxt d cur" using j n(2) by auto
    ultimately have "grid ?st' (nxt d (target_cell (tiles st ! k))) = Some j"
      using j(1) by (simp add: grid_slide_step)
    then show ?thesis using ab j(2) by (auto simp: absorbed_def)
  qed
  ultimately show ?thesis using X by (simp add: merge_inv_def)
qed

lemma merge_inv_merge:
  assumes d: "valid_direction d" and o: "ordered_cells d (c # rem)"
    and I: "slide_inv rem ts0 i cur st" "\<not> to_remove (tiles st ! i)"
    and X: "merge_inv d rem st \<and> \<not> merged (tiles st ! i)"
    and n: "inside (nxt d cur)" "grid st (nxt d cur) = Some j"
    and j: "j \<noteq> i" "j < length (tiles st)" "\<not> to_remove (tiles st ! j)"
  shows "merge_post d rem i cur (merge_into i j cur st)"
proof -
  let ?st' = "merge_into i j cur st"
  have cur: "grid st cur = Some i" by (rule slide_inv_cur [OF I])
  have curI: "inside cur" "cur \<notin> set rem" using I(1) by (simp_all add: slide_inv_def)
  have nrem: "nxt d cur \<notin> set rem" by (rule ordered_cells_closed [OF o curI])
  have M: "merged_settled rem st" using X by (simp add: merge_inv_def)
  have i: "i < length (tiles st)"
    using I(1) slide_inv_length [OF I(1)] by (simp add: slide_inv_def)
  have ne: "nxt d cur \<noteq> cur" by (rule nxt_neq [OF d])
  have mj: "merged (tiles ?st' ! j)" using j by (simp add: merged_merge_into)
  have "merged_settled rem ?st'"
    unfolding merged_settled_def
  proof (intro allI impI)
    fix a k assume a: "grid ?st' a = Some k \<and> merged (tiles ?st' ! k)"
    then have g: "grid st a = Some k" by (auto simp: grid_merge_into split: if_splits)
    have k: "k < length (tiles st)"
      using grid_atD1 [OF slide_inv_grid_at [OF I(1)] g] by simp
    show "a \<notin> set rem"
    proof (cases "k = j")
      case True
      then have "a = nxt d cur" using slide_inv_unique [OF I(1) g] n(2) by simp
      then show ?thesis using nrem by simp
    next
      case False
      then have "merged (tiles st ! k)" using a k j(1) by (simp add: merged_merge_into)
      then show ?thesis by (rule merged_settledD [OF M g])
    qed
  qed
  moreover have "absorbed d ?st' (tiles ?st' ! k)"
    if k: "k < length (tiles ?st')" "k \<noteq> i" "to_remove (tiles ?st' ! k)" for k
  proof -
    have r: "to_remove (tiles st ! k)" using k by (simp add: to_remove_merge_into)
    then have kj: "k \<noteq> j" using j(3) by auto
    have same: "tiles ?st' ! k = tiles st ! k"
      using k(2) kj by (simp add: tiles_merge_into_other)
    have ab: "absorbed d st (tiles st ! k)" using X k r by (simp add: merge_inv_def)
    then obtain j' where j': "grid st (nxt d (target_cell (tiles st ! k))) = Some j'"
      "merged (tiles st ! j')" by (auto simp: absorbed_def)
    have "nxt d (target_cell (tiles st ! k)) \<noteq> cur" using j' cur X by auto
    then have g: "grid ?st' (nxt d (target_cell (tiles st ! k))) = Some j'"
      using j'(1) by (simp add: grid_merge_into)
    have "j' < length (tiles st)"
      using grid_atD1 [OF slide_inv_grid_at [OF I(1)] j'(1)] by simp
    then have "merged (tiles ?st' ! j')" using j'(2) j(1) by (simp add: merged_merge_into)
    then show ?thesis using ab g unfolding same absorbed_def by blast
  qed
  moreover have "grid ?st' (nxt d cur) = Some j"
    using n(2) ne by (simp add: grid_merge_into)
  ultimately show ?thesis using mj by (auto simp: merge_post_def)
qed

lemma merge_inv_stop:
  assumes "\<not> to_remove (tiles st ! i)" and "merge_inv d rem st \<and> \<not> merged (tiles st ! i)"
  shows "merge_post d rem i cur st"
  using assms by (simp add: merge_inv_def merge_post_def)

lemma merge_inv_slide:
  assumes d: "valid_direction d" and o: "ordered_cells d (c # rem)"
    and I: "slide_inv rem ts0 i cur st" "\<not> to_remove (tiles st ! i)"
    and X: "merge_inv d rem st" "\<not> merged (tiles st ! i)"
    and s: "slide d i cur st = Inr (cur', st')"
  shows "slide_inv rem ts0 i cur' st' \<and> merge_post d rem i cur' st'"
proof -
  have "\<exists>cur' st'. slide d i cur st = Inr (cur', st') \<and> slide_inv rem ts0 i cur' st'
          \<and> merge_post d rem i cur' st'"
  proof (rule slide_rule_inv [where X = "\<lambda>_ st. merge_inv d rem st \<and> \<not> merged (tiles st ! i)",
        OF d o I])
    show "merge_inv d rem st \<and> \<not> merged (tiles st ! i)" using X by simp
  next
    fix cur st
    assume "slide_inv rem ts0 i cur st" "\<not> to_remove (tiles st ! i)"
      "merge_inv d rem st \<and> \<not> merged (tiles st ! i)"
      "inside (nxt d cur)" "grid st (nxt d cur) = None"
    then show "merge_inv d rem (slide_step i cur (nxt d cur) st)
        \<and> \<not> merged (tiles (slide_step i cur (nxt d cur) st) ! i)"
      by (rule merge_inv_step [OF d o])
  next
    fix cur st
    assume "\<not> to_remove (tiles st ! i)" "merge_inv d rem st \<and> \<not> merged (tiles st ! i)"
    then show "merge_post d rem i cur st" by (rule merge_inv_stop)
  next
    fix cur st j
    assume "slide_inv rem ts0 i cur st" "\<not> to_remove (tiles st ! i)"
      "merge_inv d rem st \<and> \<not> merged (tiles st ! i)"
      "inside (nxt d cur)" "grid st (nxt d cur) = Some j"
      "j \<noteq> i" "j < length (tiles st)" "\<not> to_remove (tiles st ! j)"
    then show "merge_post d rem i cur (merge_into i j cur st)"
      by (rule merge_inv_merge [OF d o])
  next
    fix cur st
    assume "\<not> to_remove (tiles st ! i)" "merge_inv d rem st \<and> \<not> merged (tiles st ! i)"
    then show "merge_post d rem i cur st" by (rule merge_inv_stop)
  qed
  then show ?thesis using s by simp
qed

lemma merge_post_set_target:
  assumes I: "slide_inv rem ts0 i cur st" and P: "merge_post d rem i cur st"
  shows "merge_inv d rem (set_target i cur st)"
proof -
  let ?st' = "set_target i cur st"
  have len: "length (tiles st) = length ts0" by (rule slide_inv_length [OF I])
  have i: "i < length (tiles st)" "inside cur" using I len by (simp_all add: slide_inv_def)
  have mg: "merged (tiles ?st' ! k) = merged (tiles st ! k)" for k
    by (cases "k = i"; cases "i < length (tiles st)")
       (simp_all add: set_target_def list_update_beyond)
  have "merged_settled rem ?st'"
    using P by (simp add: merge_post_def merged_settled_def mg)
  moreover have "absorbed d ?st' (tiles ?st' ! k)"
    if k: "k < length (tiles ?st')" "to_remove (tiles ?st' ! k)" for k
  proof (cases "k = i")
    case True
    let ?t = "(tiles st ! i)\<lparr>target_x := snd cur * RECT_WIDTH, target_y := fst cur * RECT_HEIGHT\<rparr>"
    have t: "tiles ?st' ! k = ?t" using True i by (simp add: tiles_set_target)
    have tc: "target_cell ?t = cur" by (rule target_cell_set)
    obtain j where "grid st (nxt d cur) = Some j" "merged (tiles st ! j)"
      using P k True by (auto simp: merge_post_def)
    then show ?thesis
      unfolding t absorbed_def tc using i(2) by (auto simp: mg)
  next
    case False
    then have same: "tiles ?st' ! k = tiles st ! k" by (simp add: tiles_set_target)
    have "absorbed d st (tiles st ! k)"
      using P k False by (simp add: merge_post_def)
    then show ?thesis unfolding same absorbed_def by (auto simp: mg)
  qed
  ultimately show ?thesis by (simp add: merge_inv_def)
qed

lemma merge_inv_skip: "merge_inv d (c # rem) st \<Longrightarrow> merge_inv d rem st"
  by (simp add: merge_inv_def merged_settled_def)

lemma merge_inv_head:
  assumes "merge_inv d (c # rem) st" "grid st c = Some i"
  shows "\<not> merged (tiles st ! i)"
proof
  assume "merged (tiles st ! i)"
  then have "c \<notin> set (c # rem)"
    using assms by (intro merged_settledD [of "c # rem" st c i]) (simp_all add: merge_inv_def)
  then show False by simp
qed

lemma merge_inv_init:
  assumes "\<forall>c. c \<notin> cell ` set ts \<longrightarrow> g c = None"
    and "\<forall>m < length ts. g (cell (ts ! m)) = Some m"
  shows "merge_inv d cells \<lparr>tiles = reset_merged_flags ts, grid = g, moved = False\<rparr>"
proof -
  have "j < length ts" if "g c = Some j" for c j
  proof -
    have "c \<in> cell ` set ts" using assms(1) that by (metis option.distinct(1))
    then obtain m where "m < length ts" "c = cell (ts ! m)"
      by (auto simp: in_set_conv_nth)
    then show ?thesis using assms(2) that by simp
  qed
  then have "merged_settled cells \<lparr>tiles = reset_merged_flags ts, grid = g, moved = False\<rparr>"
    by (auto simp: merged_settled_def nth_reset)
  then show ?thesis by (simp add: merge_inv_def nth_reset)
qed

text \<open>
  C10: for a tile collection with pairwise distinct cells inside the grid and a valid
  direction, \<^verbatim>\<open>move\<close> returns, and every tile flagged \<open>to_remove\<close> (a tile merged from)
  among the tiles \<open>unpurged ts d\<close> before the purge
  has its target on a cell of the grid whose next cell in the move direction is the
  target cell of a surviving tile flagged \<open>merged\<close>; so its target is not the
  survivor's cell. No tile of the returned collection is flagged \<open>to_remove\<close>.
\<close>

theorem move_removed_tiles:
  assumes "valid_direction d" and "well_placed ts"
  shows "length (unpurged ts d) = length ts
         \<and> fst (move ts d) = filter (\<lambda>t. \<not> to_remove t) (unpurged ts d)
         \<and> (\<exists>b. snd (move ts d) = Inr b)
         \<and> (\<forall>t \<in> set (unpurged ts d). to_remove t \<longrightarrow>
               target_x t = snd (target_cell t) * RECT_WIDTH
               \<and> target_y t = fst (target_cell t) * RECT_HEIGHT
               \<and> inside (target_cell t)
               \<and> (\<exists>s \<in> set (fst (move ts d)). merged s
                     \<and> next_pos d (fst (target_cell t)) (snd (target_cell t))
                         = Some (target_cell s)
                     \<and> target_cell t \<noteq> target_cell s))
         \<and> (\<forall>t \<in> set (fst (move ts d)). \<not> to_remove t)"
proof -
  have "\<exists>st. move_run ts d = Inr st \<and> loop_inv [] st
          \<and> (merge_inv d [] st \<and> length (tiles st) = length ts)"
  proof (rule move_run_rule [where X = "\<lambda>rem st. merge_inv d rem st
          \<and> length (tiles st) = length ts", OF assms])
    fix cells g
    assume "\<forall>c. c \<notin> cell ` set ts \<longrightarrow> g c = None"
      "\<forall>m < length ts. g (cell (ts ! m)) = Some m"
    then show "merge_inv d cells \<lparr>tiles = reset_merged_flags ts, grid = g, moved = False\<rparr>
        \<and> length (tiles \<lparr>tiles = reset_merged_flags ts, grid = g, moved = False\<rparr>) = length ts"
      using merge_inv_init [of ts g d cells] by simp
  next
    fix c rem st
    assume "merge_inv d (c # rem) st \<and> length (tiles st) = length ts"
    then show "merge_inv d rem st \<and> length (tiles st) = length ts"
      using merge_inv_skip by blast
  next
    fix c rem st i cur st'
    assume o: "ordered_cells d (c # rem)"
      and X: "merge_inv d (c # rem) st \<and> length (tiles st) = length ts"
      and g: "grid st c = Some i"
      and I: "slide_inv rem (tiles st) i c st" "\<not> to_remove (tiles st ! i)"
      and s: "slide d i c st = Inr (cur, st')"
    have nm: "\<not> merged (tiles st ! i)" using merge_inv_head X g by blast
    have X': "merge_inv d rem st" using X merge_inv_skip by blast
    have P: "slide_inv rem (tiles st) i cur st' \<and> merge_post d rem i cur st'"
      by (rule merge_inv_slide [OF assms(1) o I X' nm s])
    then have "merge_inv d rem (set_target i cur st')"
      using merge_post_set_target by blast
    moreover have "length (tiles st') = length ts"
      using P X slide_inv_length by metis
    ultimately show "merge_inv d rem (set_target i cur st')
        \<and> length (tiles (set_target i cur st')) = length ts"
      by simp
  qed
  then obtain st where st: "move_run ts d = Inr st" "loop_inv [] st" "merge_inv d [] st"
    "length (tiles st) = length ts" by blast
  note mv = move_run_move [OF st(1)]
  note G = st(2) [unfolded loop_inv_def pos_Nil]
  have "target_x t = snd (target_cell t) * RECT_WIDTH
          \<and> target_y t = fst (target_cell t) * RECT_HEIGHT
          \<and> inside (target_cell t)
          \<and> (\<exists>s \<in> set (filter (\<lambda>t. \<not> to_remove t) (tiles st)). merged s
                \<and> next_pos d (fst (target_cell t)) (snd (target_cell t)) = Some (target_cell s)
                \<and> target_cell t \<noteq> target_cell s)"
    if t: "t \<in> set (tiles st)" "to_remove t" for t
  proof -
    obtain k where k: "k < length (tiles st)" "tiles st ! k = t"
      using t(1) unfolding in_set_conv_nth by blast
    have ab: "absorbed d st t" using st(3) k t(2) by (auto simp: merge_inv_def)
    then obtain j where j: "grid st (nxt d (target_cell t)) = Some j" "merged (tiles st ! j)"
      by (auto simp: absorbed_def)
    from grid_atD1 [OF G j(1)] have j': "j < length (tiles st)" "\<not> to_remove (tiles st ! j)"
      "target_cell (tiles st ! j) = nxt d (target_cell t)" by simp_all
    have "tiles st ! j \<in> set (filter (\<lambda>t. \<not> to_remove t) (tiles st))"
      using j' by simp
    moreover have "next_pos d (fst (target_cell t)) (snd (target_cell t))
        = Some (target_cell (tiles st ! j))"
      using next_pos_valid [OF assms(1), of "fst (target_cell t)" "snd (target_cell t)"] j'(3)
      by simp
    moreover have "target_cell t \<noteq> target_cell (tiles st ! j)"
      using nxt_neq [OF assms(1), of "target_cell t"] j'(3) by simp
    ultimately show ?thesis using ab j(2) unfolding absorbed_def by blast
  qed
  then have R: "\<forall>t \<in> set (tiles st). to_remove t \<longrightarrow>
          target_x t = snd (target_cell t) * RECT_WIDTH
          \<and> target_y t = fst (target_cell t) * RECT_HEIGHT
          \<and> inside (target_cell t)
          \<and> (\<exists>s \<in> set (filter (\<lambda>t. \<not> to_remove t) (tiles st)). merged s
                \<and> next_pos d (fst (target_cell t)) (snd (target_cell t)) = Some (target_cell s)
                \<and> target_cell t \<noteq> target_cell s)"
    by blast
  show ?thesis
    unfolding mv move_run_unpurged [OF st(1)] fst_conv snd_conv
  proof (intro conjI)
    show "length (tiles st) = length ts" by (rule st(4))
    show "filter (\<lambda>t. \<not> to_remove t) (tiles st) = filter (\<lambda>t. \<not> to_remove t) (tiles st)"
      by (rule refl)
    show "\<exists>b. Inr (moved st) = Inr b" by blast
    show "\<forall>t \<in> set (filter (\<lambda>t. \<not> to_remove t) (tiles st)). \<not> to_remove t" by simp
  qed (rule R)
qed

theorem move_removed_tiles_witness:
  "valid_direction ''left'' \<and> well_placed ex_tiles
   \<and> removed_ex \<in> set (unpurged ex_tiles ''left'') \<and> to_remove removed_ex
   \<and> target_x removed_ex = snd (target_cell removed_ex) * RECT_WIDTH
   \<and> target_y removed_ex = fst (target_cell removed_ex) * RECT_HEIGHT
   \<and> inside (target_cell removed_ex)
   \<and> (\<exists>s \<in> set (fst (move ex_tiles ''left'')). merged s
         \<and> next_pos ''left'' (fst (target_cell removed_ex)) (snd (target_cell removed_ex))
             = Some (target_cell s)
         \<and> target_cell removed_ex \<noteq> target_cell s)
   \<and> removed_ex \<notin> set (fst (move ex_tiles ''left''))"
proof -
  have m: "removed_ex \<in> set (unpurged ex_tiles ''left'')" by code_simp
  have r: "to_remove removed_ex" by (simp add: removed_ex_def)
  note t = move_removed_tiles [OF valid_direction_simps(1) well_placed_ex]
  from t m r have 1: "target_x removed_ex = snd (target_cell removed_ex) * RECT_WIDTH
     \<and> target_y removed_ex = fst (target_cell removed_ex) * RECT_HEIGHT
     \<and> inside (target_cell removed_ex)
     \<and> (\<exists>s \<in> set (fst (move ex_tiles ''left'')). merged s
         \<and> next_pos ''left'' (fst (target_cell removed_ex)) (snd (target_cell removed_ex))
             = Some (target_cell s)
         \<and> target_cell removed_ex \<noteq> target_cell s)"
    by blast
  from t r have 2: "removed_ex \<notin> set (fst (move ex_tiles ''left''))" by blast
  show ?thesis
    using valid_direction_simps(1) well_placed_ex m r 1 2 by blast
qed

lemma finite_occupied [simp]: "finite (occupied g)"
proof -
  have "occupied g \<subseteq> set all_cells" by (auto simp: occupied_def set_all_cells)
  then show ?thesis by (rule finite_subset) simp
qed

lemma weight_remove:
  assumes "finite S" "c \<in> S"
  shows "weight d S = Suc (steps_left d (fst c) (snd c)) + weight d (S - {c})"
  unfolding weight_def using assms by (simp add: sum.remove)

lemma weight_insert:
  assumes "finite S" "c \<notin> S"
  shows "weight d (insert c S) = Suc (steps_left d (fst c) (snd c)) + weight d S"
  unfolding weight_def using assms by simp

lemma occupied_slide_step:
  assumes "grid st cur = Some i" "grid st n = None" "inside n" "inside cur"
  shows "occupied (grid (slide_step i cur n st)) = insert n (occupied (grid st) - {cur})"
  using assms by (auto simp: occupied_def grid_slide_step)

lemma occupied_merge_into:
  "occupied (grid (merge_into i j cur st)) = occupied (grid st) - {cur}"
  by (auto simp: occupied_def grid_merge_into)

lemma weight_slide_step:
  assumes d: "valid_direction d"
    and g: "grid st cur = Some i" "grid st (nxt d cur) = None"
    and n: "inside (nxt d cur)" "inside cur"
  shows "weight d (occupied (grid (slide_step i cur (nxt d cur) st)))
           < weight d (occupied (grid st))"
proof -
  let ?S = "occupied (grid st)"
  have cur: "cur \<in> ?S" using g n by (simp add: occupied_def)
  have nn: "nxt d cur \<notin> ?S - {cur}" using g by (simp add: occupied_def)
  have "weight d (occupied (grid (slide_step i cur (nxt d cur) st)))
          = Suc (steps_left d (fst (nxt d cur)) (snd (nxt d cur))) + weight d (?S - {cur})"
    using occupied_slide_step [OF g n] weight_insert [OF _ nn, of d] by simp
  moreover have "weight d ?S = Suc (steps_left d (fst cur) (snd cur)) + weight d (?S - {cur})"
    by (rule weight_remove [OF finite_occupied cur])
  ultimately show ?thesis using steps_left_nxt [OF d n(1)] by simp
qed

lemma weight_merge_into:
  assumes g: "grid st cur = Some i" and n: "inside cur"
  shows "weight d (occupied (grid (merge_into i j cur st))) < weight d (occupied (grid st))"
proof -
  have cur: "cur \<in> occupied (grid st)" using g n by (simp add: occupied_def)
  show ?thesis
    using weight_remove [OF finite_occupied cur, of d] by (simp add: occupied_merge_into)
qed

lemma weight_bound_slide:
  assumes d: "valid_direction d" and o: "ordered_cells d (c # rem)"
    and I: "slide_inv rem ts0 i cur st" "\<not> to_remove (tiles st ! i)"
    and X: "weight_bound d b st"
    and s: "slide d i cur st = Inr (cur', st')"
  shows "weight_bound d b st'"
proof -
  have "\<exists>cur' st'. slide d i cur st = Inr (cur', st') \<and> slide_inv rem ts0 i cur' st'
          \<and> weight_bound d b st'"
  proof (rule slide_rule_inv [where X = "\<lambda>_ st. weight_bound d b st", OF d o I X])
    fix cur st
    assume a: "slide_inv rem ts0 i cur st" "\<not> to_remove (tiles st ! i)" "weight_bound d b st"
      "inside (nxt d cur)" "grid st (nxt d cur) = None"
    have "inside cur" using a(1) by (simp add: slide_inv_def)
    then have "weight d (occupied (grid (slide_step i cur (nxt d cur) st)))
        < weight d (occupied (grid st))"
      using weight_slide_step [OF d slide_inv_cur [OF a(1,2)] a(5,4)] by simp
    then show "weight_bound d b (slide_step i cur (nxt d cur) st)"
      using a(3) by (simp add: weight_bound_def)
  next
    fix cur st j
    assume a: "slide_inv rem ts0 i cur st" "\<not> to_remove (tiles st ! i)" "weight_bound d b st"
    have "inside cur" using a(1) by (simp add: slide_inv_def)
    then have "weight d (occupied (grid (merge_into i j cur st)))
        < weight d (occupied (grid st))"
      using weight_merge_into [OF slide_inv_cur [OF a(1,2)]] by simp
    then show "weight_bound d b (merge_into i j cur st)"
      using a(3) by (simp add: weight_bound_def)
  qed simp_all
  then show ?thesis using s by simp
qed

lemma slide_unmoved:
  assumes d: "valid_direction d" and s: "slide d i c st = Inr (cur, st')" and m: "\<not> moved st'"
  shows "cur = c \<and> st' = st"
proof -
  have "\<exists>cur' st'. slide d i c st = Inr (cur', st') \<and> (\<not> moved st' \<longrightarrow> cur' = c \<and> st' = st)"
    by (rule slide_rule [where I = "\<lambda>cur' st'. \<not> moved st' \<longrightarrow> cur' = c \<and> st' = st", OF d])
       simp_all
  then show ?thesis using s m by simp
qed

lemma slide_moved:
  assumes d: "valid_direction d" and s: "slide d i c st = Inr (cur, st')" and m: "moved st"
  shows "moved st'"
proof -
  have "\<exists>cur' st'. slide d i c st = Inr (cur', st') \<and> moved st'"
    by (rule slide_rule [where I = "\<lambda>_ st'. moved st'", OF d m]) simp_all
  then show ?thesis using s by simp
qed

lemma unmoved_skip:
  assumes u: "unmoved ts0 g0 (c # rem) st" and g: "grid st c = None"
    and g0: "\<forall>m < length ts0. g0 (cell (ts0 ! m)) = Some m"
  shows "unmoved ts0 g0 rem st"
  unfolding unmoved_def
proof (intro impI)
  assume m: "\<not> moved st"
  with u have a: "grid st = g0" "length (tiles st) = length ts0"
    "\<And>k. k < length ts0 \<Longrightarrow> retarget (ts0 ! k) (tiles st ! k)"
    "\<And>k. k < length ts0 \<Longrightarrow> cell (ts0 ! k) \<notin> set (c # rem) \<Longrightarrow> at_rest (tiles st ! k)"
    by (simp_all add: unmoved_def)
  have "at_rest (tiles st ! k)" if k: "k < length ts0" "cell (ts0 ! k) \<notin> set rem" for k
  proof -
    have "cell (ts0 ! k) \<noteq> c" using g0 k(1) g a(1) by auto
    then show ?thesis using a(4) k by simp
  qed
  then show "grid st = g0 \<and> length (tiles st) = length ts0
      \<and> (\<forall>k < length ts0. retarget (ts0 ! k) (tiles st ! k)
            \<and> (cell (ts0 ! k) \<notin> set rem \<longrightarrow> at_rest (tiles st ! k)))"
    using a by simp
qed

lemma retarget_update:
  "retarget t0 t \<Longrightarrow> retarget t0 (t\<lparr>target_x := a, target_y := b\<rparr>)"
  unfolding retarget_def by (cases t0, cases t) simp

lemma unmoved_visit:
  assumes u: "unmoved ts0 g0 (c # rem) st" and g: "grid st c = Some i"
    and g0: "\<forall>m < length ts0. g0 (cell (ts0 ! m)) = Some m"
      "\<forall>a. a \<notin> cell ` set ts0 \<longrightarrow> g0 a = None"
  shows "unmoved ts0 g0 rem (set_target i c st)"
  unfolding unmoved_def
proof (intro impI)
  assume "\<not> moved (set_target i c st)"
  then have m: "\<not> moved st" by simp
  with u have a: "grid st = g0" "length (tiles st) = length ts0"
    "\<And>k. k < length ts0 \<Longrightarrow> retarget (ts0 ! k) (tiles st ! k)"
    "\<And>k. k < length ts0 \<Longrightarrow> cell (ts0 ! k) \<notin> set (c # rem) \<Longrightarrow> at_rest (tiles st ! k)"
    by (simp_all add: unmoved_def)
  have "c \<in> cell ` set ts0" using g a(1) g0(2) by (metis option.distinct(1))
  then obtain m where m: "m < length ts0" "c = cell (ts0 ! m)"
    by (auto simp: in_set_conv_nth)
  then have im: "i = m" using g0(1) g a(1) by simp
  have ci: "cell (tiles st ! i) = c"
  proof -
    have "retarget (ts0 ! i) (tiles st ! i)" using a(3) m im by simp
    then have "cell (tiles st ! i) = cell (ts0 ! i)"
      unfolding retarget_def cell_def by (metis (no_types) Tile.select_convs(2,3) Tile.surjective Tile.update_convs(6,7))
    then show ?thesis using m im by simp
  qed
  let ?t = "(tiles st ! i)\<lparr>target_x := snd c * RECT_WIDTH, target_y := fst c * RECT_HEIGHT\<rparr>"
  have "retarget (ts0 ! k) (tiles (set_target i c st) ! k)
      \<and> (cell (ts0 ! k) \<notin> set rem \<longrightarrow> at_rest (tiles (set_target i c st) ! k))"
    if k: "k < length ts0" for k
  proof (cases "k = i")
    case True
    have "at_rest ?t" using ci by (auto simp: at_rest_def cell_def)
    moreover have "retarget (ts0 ! i) ?t" using a(3) [of i] k True by (simp add: retarget_update)
    ultimately show ?thesis using True k a(2) by (simp add: tiles_set_target)
  next
    case False
    have "cell (ts0 ! k) \<noteq> c"
    proof
      assume "cell (ts0 ! k) = c"
      then have "g0 c = Some k" using g0(1) k by auto
      then show False using g a(1) False by simp
    qed
    then show ?thesis using False k a(3,4) [of k] by (simp add: tiles_set_target)
  qed
  then show "grid (set_target i c st) = g0 \<and> length (tiles (set_target i c st)) = length ts0
      \<and> (\<forall>k < length ts0. retarget (ts0 ! k) (tiles (set_target i c st) ! k)
            \<and> (cell (ts0 ! k) \<notin> set rem \<longrightarrow> at_rest (tiles (set_target i c st) ! k)))"
    using a(1,2) by simp
qed

lemma occupied_final:
  assumes "loop_inv [] st"
  shows "occupied (grid st) = target_cell ` set (filter (\<lambda>t. \<not> to_remove t) (tiles st))"
proof -
  note G = assms [unfolded loop_inv_def pos_Nil]
  show ?thesis
  proof (intro set_eqI iffI)
    fix c assume "c \<in> occupied (grid st)"
    then obtain k where k: "grid st c = Some k" by (auto simp: occupied_def)
    from grid_atD1 [OF G k] have "k < length (tiles st)" "\<not> to_remove (tiles st ! k)"
      "target_cell (tiles st ! k) = c" by simp_all
    then have "tiles st ! k \<in> set (filter (\<lambda>t. \<not> to_remove t) (tiles st))" by simp
    then show "c \<in> target_cell ` set (filter (\<lambda>t. \<not> to_remove t) (tiles st))"
      using \<open>target_cell (tiles st ! k) = c\<close> by blast
  next
    fix c assume "c \<in> target_cell ` set (filter (\<lambda>t. \<not> to_remove t) (tiles st))"
    then obtain t where t: "t \<in> set (tiles st)" "\<not> to_remove t" "c = target_cell t" by auto
    then obtain k where k: "k < length (tiles st)" "tiles st ! k = t"
      unfolding in_set_conv_nth by blast
    have g: "grid st c = Some k" using grid_atD2 [OF G k(1)] k(2) t by simp
    then show "c \<in> occupied (grid st)"
      using grid_atD1 [OF G g] by (simp add: occupied_def)
  qed
qed

lemma occupied_init:
  assumes w: "well_placed ts0"
    and g: "\<forall>c. c \<notin> cell ` set ts0 \<longrightarrow> g c = None" "\<forall>m < length ts0. g (cell (ts0 ! m)) = Some m"
  shows "occupied g = cell ` set ts0"
proof (intro set_eqI iffI)
  fix c assume "c \<in> occupied g"
  then have "g c \<noteq> None" by (simp add: occupied_def)
  then show "c \<in> cell ` set ts0" using g(1) by (metis (full_types))
next
  fix c assume "c \<in> cell ` set ts0"
  then obtain m where m: "m < length ts0" "c = cell (ts0 ! m)"
    by (auto simp: in_set_conv_nth)
  then have "inside c" using w by (simp add: well_placed_def)
  then show "c \<in> occupied g" using g(2) m by (simp add: occupied_def)
qed

lemma fst_placed_values: "fst ` placed_values ts = cell ` set ts"
  by (simp add: placed_values_def image_image)

lemma retarget_refl: "retarget t t"
  by (simp add: retarget_def)

lemma retarget_fields:
  assumes "retarget t0 t"
  shows "cell t = cell t0" "tile_value t = tile_value t0" "to_remove t = to_remove t0"
proof -
  have e: "t = t0\<lparr>target_x := target_x t, target_y := target_y t\<rparr>"
    using assms by (simp only: retarget_def)
  show "cell t = cell t0"
    using arg_cong [OF e, of cell] by (simp add: cell_def)
  show "tile_value t = tile_value t0"
    using arg_cong [OF e, of tile_value] by simp
  show "to_remove t = to_remove t0"
    using arg_cong [OF e, of to_remove] by simp
qed

lemma cell_resync_at_rest: "at_rest t \<Longrightarrow> cell (resync t) = cell t"
  unfolding cell_resync
  by (simp add: target_cell_def at_rest_def cell_def RECT_WIDTH_def RECT_HEIGHT_def
        WIDTH_def HEIGHT_def ROWS_def COLS_def)

lemma tile_value_resync [simp]: "tile_value (resync t) = tile_value t"
  by (simp add: resync_def)

lemma unmoved_final:
  assumes u: "unmoved (reset_merged_flags ts) g0 [] st" and m: "\<not> moved st"
  shows "filter (\<lambda>t. \<not> to_remove t) (tiles st) = tiles st"
    and "list_all at_rest (tiles st)"
    and "placed_values (map resync (tiles st)) = placed_values ts"
proof -
  let ?ts0 = "reset_merged_flags ts"
  from u m have a: "length (tiles st) = length ts"
    "\<And>k. k < length ts \<Longrightarrow> retarget (?ts0 ! k) (tiles st ! k)"
    "\<And>k. k < length ts \<Longrightarrow> at_rest (tiles st ! k)"
    by (simp_all add: unmoved_def)
  have nr: "\<not> to_remove t" if t: "t \<in> set (tiles st)" for t
  proof -
    obtain k where k: "k < length (tiles st)" "tiles st ! k = t"
      using t unfolding in_set_conv_nth by blast
    then show ?thesis using retarget_fields(3) [OF a(2) [of k]] a(1) by (simp add: nth_reset)
  qed
  then show "filter (\<lambda>t. \<not> to_remove t) (tiles st) = tiles st" by simp
  show "list_all at_rest (tiles st)"
    using a(1,3) by (simp add: list_all_length)
  have "map (\<lambda>t. (cell t, tile_value t)) (map resync (tiles st))
          = map (\<lambda>t. (cell t, tile_value t)) ts"
  proof (rule nth_equalityI)
    show "length (map (\<lambda>t. (cell t, tile_value t)) (map resync (tiles st)))
        = length (map (\<lambda>t. (cell t, tile_value t)) ts)" using a(1) by simp
  next
    fix k assume "k < length (map (\<lambda>t. (cell t, tile_value t)) (map resync (tiles st)))"
    then have k: "k < length ts" using a(1) by simp
    have "cell (resync (tiles st ! k)) = cell (ts ! k)"
      using cell_resync_at_rest [OF a(3) [OF k]] retarget_fields(1) [OF a(2) [OF k]] k
      by (simp add: nth_reset cell_def)
    moreover have "tile_value (tiles st ! k) = tile_value (ts ! k)"
      using retarget_fields(2) [OF a(2) [OF k]] k by (simp add: nth_reset)
    ultimately show "map (\<lambda>t. (cell t, tile_value t)) (map resync (tiles st)) ! k
        = map (\<lambda>t. (cell t, tile_value t)) ts ! k"
      using k a(1) by simp
  qed
  then have "set (map (\<lambda>t. (cell t, tile_value t)) (map resync (tiles st)))
      = set (map (\<lambda>t. (cell t, tile_value t)) ts)" by simp
  then show "placed_values (map resync (tiles st)) = placed_values ts"
    unfolding placed_values_def by (simp only: set_map)
qed

text \<open>
  C2: for a tile collection with pairwise distinct cells inside the grid and a valid
  direction, \<^verbatim>\<open>move\<close> returns, and it returns False exactly when the grid after the
  move (each remaining tile on the cell of its target, where \<^verbatim>\<open>main\<close> puts it when the
  animation ends, with its value) is the grid before the move (each tile on its cell,
  with its value); when it returns False, the target of every tile is the pixel
  position of its own cell.
\<close>

theorem move_false_iff_unchanged:
  assumes "valid_direction d" and "well_placed ts"
  shows "(\<exists>b. snd (move ts d) = Inr b)
         \<and> (snd (move ts d) = Inr False
              \<longleftrightarrow> placed_values (map resync (fst (move ts d))) = placed_values ts)
         \<and> (snd (move ts d) = Inr False \<longrightarrow> list_all at_rest (fst (move ts d)))"
proof -
  let ?ts0 = "reset_merged_flags ts"
  have w0: "well_placed ?ts0" by (rule well_placed_reset [OF assms(2)])
  obtain g0 where g0: "build_grid ?ts0 = Inr g0"
    "\<forall>c. c \<notin> cell ` set ?ts0 \<longrightarrow> g0 c = None"
    "\<forall>m < length ?ts0. g0 (cell (?ts0 ! m)) = Some m"
    using build_grid_ok [OF w0] by blast
  define b where "b = weight d (occupied g0)"
  have "\<exists>st. move_run ts d = Inr st \<and> loop_inv [] st
          \<and> (unmoved ?ts0 g0 [] st \<and> weight_bound d b st)"
  proof (rule move_run_rule [where X = "\<lambda>rem st. unmoved ?ts0 g0 rem st \<and> weight_bound d b st",
        OF assms])
    fix cells g
    assume c: "set cells = {c. inside c}" and g: "build_grid ?ts0 = Inr g"
    have gg: "g = g0" using g g0(1) by simp
    have "cell (?ts0 ! k) \<in> set cells" if "k < length ?ts0" for k
      using w0 that c by (simp add: well_placed_def)
    then have "unmoved ?ts0 g0 cells \<lparr>tiles = ?ts0, grid = g, moved = False\<rparr>"
      by (simp add: unmoved_def gg retarget_refl)
    moreover have "weight_bound d b \<lparr>tiles = ?ts0, grid = g, moved = False\<rparr>"
      by (simp add: weight_bound_def b_def gg)
    ultimately show "unmoved ?ts0 g0 cells \<lparr>tiles = ?ts0, grid = g, moved = False\<rparr>
        \<and> weight_bound d b \<lparr>tiles = ?ts0, grid = g, moved = False\<rparr>" by simp
  next
    fix c rem st
    assume "unmoved ?ts0 g0 (c # rem) st \<and> weight_bound d b st" "grid st c = None"
    then show "unmoved ?ts0 g0 rem st \<and> weight_bound d b st"
      using unmoved_skip [OF _ _ g0(3)] by blast
  next
    fix c rem st i cur st'
    assume o: "ordered_cells d (c # rem)"
      and X: "unmoved ?ts0 g0 (c # rem) st \<and> weight_bound d b st"
      and g: "grid st c = Some i"
      and I: "slide_inv rem (tiles st) i c st" "\<not> to_remove (tiles st ! i)"
      and s: "slide d i c st = Inr (cur, st')"
    have "weight_bound d b st'"
      using weight_bound_slide [OF assms(1) o I _ s] X by simp
    then have 1: "weight_bound d b (set_target i cur st')"
      by (simp add: weight_bound_def)
    have 2: "unmoved ?ts0 g0 rem (set_target i cur st')"
    proof (cases "moved st'")
      case True
      then show ?thesis by (simp add: unmoved_def)
    next
      case False
      then have "cur = c \<and> st' = st" by (rule slide_unmoved [OF assms(1) s])
      then show ?thesis using unmoved_visit [OF _ g g0(3,2)] X by simp
    qed
    show "unmoved ?ts0 g0 rem (set_target i cur st') \<and> weight_bound d b (set_target i cur st')"
      using 1 2 by simp
  qed
  then obtain st where st: "move_run ts d = Inr st" "loop_inv [] st"
    "unmoved ?ts0 g0 [] st" "weight_bound d b st" by blast
  note mv = move_run_move [OF st(1)]
  show ?thesis
  proof (cases "moved st")
    case False
    show ?thesis
      using unmoved_final [OF st(3) False] False by (auto simp: mv)
  next
    case True
    have lt: "weight d (occupied (grid st)) < weight d (occupied g0)"
      using st(4) True by (simp add: weight_bound_def b_def)
    have "placed_values (map resync (filter (\<lambda>t. \<not> to_remove t) (tiles st))) \<noteq> placed_values ts"
    proof
      assume e: "placed_values (map resync (filter (\<lambda>t. \<not> to_remove t) (tiles st)))
          = placed_values ts"
      have "occupied (grid st) = cell ` set (map resync (filter (\<lambda>t. \<not> to_remove t) (tiles st)))"
        unfolding occupied_final [OF st(2)] by (simp add: image_image cell_resync)
      also have "\<dots> = cell ` set ts"
        using arg_cong [OF e, of "\<lambda>S. fst ` S"] by (simp only: fst_placed_values)
      also have "\<dots> = cell ` set ?ts0"
        using arg_cong [OF map_cell_reset [of ts], of set] by (simp only: set_map)
      also have "\<dots> = occupied g0"
        by (rule occupied_init [OF w0 g0(2,3), symmetric])
      finally show False using lt by simp
    qed
    then show ?thesis using True by (auto simp: mv)
  qed
qed

lemma well_placed_blocked: "well_placed blocked_tiles"
  by (simp add: well_placed_def blocked_tiles_def new_Tile_def cell_def inside_iff)

theorem move_false_iff_unchanged_witness:
  "valid_direction ''left'' \<and> well_placed blocked_tiles
   \<and> snd (move blocked_tiles ''left'') = Inr False
   \<and> placed_values (map resync (fst (move blocked_tiles ''left''))) = placed_values blocked_tiles
   \<and> list_all at_rest (fst (move blocked_tiles ''left''))
   \<and> well_placed ex_tiles
   \<and> snd (move ex_tiles ''left'') = Inr True
   \<and> placed_values (map resync (fst (move ex_tiles ''left''))) \<noteq> placed_values ex_tiles"
proof -
  have f: "snd (move blocked_tiles ''left'') = Inr False" by code_simp
  have t: "snd (move ex_tiles ''left'') = Inr True" by code_simp
  note 1 = move_false_iff_unchanged [OF valid_direction_simps(1) well_placed_blocked]
  note 2 = move_false_iff_unchanged [OF valid_direction_simps(1) well_placed_ex]
  have p: "placed_values (map resync (fst (move blocked_tiles ''left'')))
      = placed_values blocked_tiles"
    by (rule iffD1 [OF 1 [THEN conjunct2, THEN conjunct1] f])
  have r: "list_all at_rest (fst (move blocked_tiles ''left''))"
    by (rule mp [OF 1 [THEN conjunct2, THEN conjunct2] f])
  have n: "placed_values (map resync (fst (move ex_tiles ''left''))) \<noteq> placed_values ex_tiles"
  proof
    assume "placed_values (map resync (fst (move ex_tiles ''left''))) = placed_values ex_tiles"
    then have "snd (move ex_tiles ''left'') = Inr False"
      by (rule iffD2 [OF 2 [THEN conjunct2, THEN conjunct1]])
    then show False using t by simp
  qed
  show ?thesis
    by (intro conjI valid_direction_simps(1) well_placed_blocked f p r well_placed_ex t n)
qed

lemma value_at_Nil [simp]: "value_at [] c = None"
  by (simp add: value_at_def)

lemma value_at_Cons:
  "value_at (t # ts) c = (if cell t = c then Some (tile_value t) else value_at ts c)"
  by (simp add: value_at_def)

lemma value_at_None: "value_at ts c = None \<longleftrightarrow> c \<notin> cell ` set ts"
  by (auto simp: value_at_def find_None_iff)

lemma place_values_Cons_inside:
  "inside (cell t) \<Longrightarrow>
     place_values (t # ts) g = place_values ts (g(cell t := tile_value t))"
  using py_index_inside [of "row t" "col t"] by (simp add: cell_def)

lemma place_values_ok:
  assumes "\<forall>t \<in> set ts. inside (cell t)" and "distinct (map cell ts)"
  shows "place_values ts g = Inr (\<lambda>c. case value_at ts c of Some v \<Rightarrow> v | None \<Rightarrow> g c)"
  using assms
proof (induction ts arbitrary: g)
  case Nil
  then show ?case by simp
next
  case (Cons t ts)
  from Cons.prems have t: "inside (cell t)" "cell t \<notin> cell ` set ts"
    and ts: "\<forall>t \<in> set ts. inside (cell t)" "distinct (map cell ts)"
    by simp_all
  have n: "value_at ts (cell t) = None" using t(2) by (simp add: value_at_None)
  have "(\<lambda>c. case value_at ts c of Some v \<Rightarrow> v | None \<Rightarrow> (g(cell t := tile_value t)) c)
          = (\<lambda>c. case value_at (t # ts) c of Some v \<Rightarrow> v | None \<Rightarrow> g c)"
  proof
    fix c
    show "(case value_at ts c of Some v \<Rightarrow> v | None \<Rightarrow> (g(cell t := tile_value t)) c)
        = (case value_at (t # ts) c of Some v \<Rightarrow> v | None \<Rightarrow> g c)"
      using n by (cases "c = cell t") (auto simp: value_at_Cons split: option.splits)
  qed
  then show ?case
    unfolding place_values_Cons_inside [OF t(1)] using Cons.IH [OF ts] by simp
qed

lemma distinct_all_cells: "distinct all_cells"
  by (simp add: all_cells_def range4_def)

lemma length_all_cells: "length all_cells = 16"
  by (simp add: all_cells_def range4_def)

lemma well_placed_length:
  assumes "well_placed ts"
  shows "length ts \<le> 16" and "length ts < 16 \<longleftrightarrow> \<not> grid_full ts"
proof -
  have d: "distinct (map cell ts)" and sub: "cell ` set ts \<subseteq> set all_cells"
    using assms by (auto simp: well_placed_def set_all_cells)
  have c16: "card (set all_cells) = 16"
    using distinct_card [OF distinct_all_cells] length_all_cells by simp
  have len: "length ts = card (cell ` set ts)"
    using distinct_card [OF d] by simp
  show le: "length ts \<le> 16"
    using card_mono [OF _ sub] len c16 by simp
  have "grid_full ts \<longleftrightarrow> set all_cells \<subseteq> cell ` set ts"
    by (auto simp: grid_full_def list_all_iff value_at_None)
  also have "\<dots> \<longleftrightarrow> cell ` set ts = set all_cells" using sub by auto
  also have "\<dots> \<longleftrightarrow> card (cell ` set ts) = 16"
    using card_subset_eq [OF _ sub] c16 by auto
  finally show "length ts < 16 \<longleftrightarrow> \<not> grid_full ts"
    using le len by auto
qed

lemma inside_all_cells: "c \<in> set all_cells \<longleftrightarrow> inside c"
  by (simp add: set_all_cells)

lemma list_ex_all_cells: "list_ex P all_cells \<longleftrightarrow> (\<exists>r c. inside (r, c) \<and> P (r, c))"
  unfolding list_ex_iff Bex_def inside_all_cells split_paired_Ex by (rule refl)

lemma equal_neighbours_iff:
  "equal_neighbours ts \<longleftrightarrow>
     (\<exists>a b. inside a \<and> inside b \<and> adjacent a b \<and> value_at ts a = value_at ts b)"
  unfolding equal_neighbours_def list_ex_iff Bex_def inside_all_cells by blast

lemma neighbour_check:
  assumes full: "grid_full ts"
  defines "g \<equiv> (\<lambda>c. case value_at ts c of Some v \<Rightarrow> v | None \<Rightarrow> (0::int))"
  shows "list_ex (\<lambda>(r, c). (c + 1 < COLS \<and> g (r, c) = g (r, c + 1))
                          \<or> (r + 1 < ROWS \<and> g (r, c) = g (r + 1, c))) all_cells
         \<longleftrightarrow> equal_neighbours ts"
proof -
  have some: "\<exists>v. value_at ts a = Some v" if "inside a" for a
    using full that by (auto simp: grid_full_def list_all_iff inside_all_cells)
  have geq: "g a = g b \<longleftrightarrow> value_at ts a = value_at ts b" if "inside a" "inside b" for a b
    using some [OF that(1)] some [OF that(2)] by (auto simp: g_def)
  show ?thesis
  proof
    assume "list_ex (\<lambda>(r, c). (c + 1 < COLS \<and> g (r, c) = g (r, c + 1))
                          \<or> (r + 1 < ROWS \<and> g (r, c) = g (r + 1, c))) all_cells"
    then obtain r c where rc: "inside (r, c)"
      "(c + 1 < COLS \<and> g (r, c) = g (r, c + 1)) \<or> (r + 1 < ROWS \<and> g (r, c) = g (r + 1, c))"
      unfolding list_ex_all_cells by auto
    from rc(2) show "equal_neighbours ts"
    proof
      assume a: "c + 1 < COLS \<and> g (r, c) = g (r, c + 1)"
      then have i: "inside (r, c + 1)" using rc(1) by (simp add: inside_iff COLS_def)
      have "adjacent (r, c) (r, c + 1) \<and> value_at ts (r, c) = value_at ts (r, c + 1)"
        using a geq [OF rc(1) i] by (simp add: adjacent_def)
      then show ?thesis
        using rc(1) i unfolding equal_neighbours_iff by blast
    next
      assume a: "r + 1 < ROWS \<and> g (r, c) = g (r + 1, c)"
      then have i: "inside (r + 1, c)" using rc(1) by (simp add: inside_iff ROWS_def)
      have "adjacent (r, c) (r + 1, c) \<and> value_at ts (r, c) = value_at ts (r + 1, c)"
        using a geq [OF rc(1) i] by (simp add: adjacent_def)
      then show ?thesis
        using rc(1) i unfolding equal_neighbours_iff by blast
    qed
  next
    assume "equal_neighbours ts"
    then obtain a b where ab: "inside a" "inside b" "adjacent a b"
      "value_at ts a = value_at ts b"
      unfolding equal_neighbours_iff by blast
    obtain r c where a: "a = (r, c)" by (cases a)
    obtain r' c' where b: "b = (r', c')" by (cases b)
    have e: "g (r, c) = g (r', c')" using geq [OF ab(1,2)] ab(4) a b by simp
    from ab(3) have "(r' = r \<and> c' = c + 1) \<or> (r' = r \<and> c = c' + 1)
        \<or> (c' = c \<and> r' = r + 1) \<or> (c' = c \<and> r = r' + 1)"
      unfolding adjacent_def a b by auto
    then have "\<exists>p q. inside (p, q)
        \<and> ((q + 1 < COLS \<and> g (p, q) = g (p, q + 1)) \<or> (p + 1 < ROWS \<and> g (p, q) = g (p + 1, q)))"
    proof (elim disjE conjE)
      assume "r' = r" "c' = c + 1"
      then show ?thesis
        using ab(1,2) e unfolding a b by (intro exI [of _ r] exI [of _ c]) (simp add: inside_iff COLS_def)
    next
      assume "r' = r" "c = c' + 1"
      then show ?thesis
        using ab(1,2) e unfolding a b by (intro exI [of _ r'] exI [of _ c']) (simp add: inside_iff COLS_def)
    next
      assume "c' = c" "r' = r + 1"
      then show ?thesis
        using ab(1,2) e unfolding a b by (intro exI [of _ r] exI [of _ c]) (simp add: inside_iff ROWS_def)
    next
      assume "c' = c" "r = r' + 1"
      then show ?thesis
        using ab(1,2) e unfolding a b by (intro exI [of _ r'] exI [of _ c']) (simp add: inside_iff ROWS_def)
    qed
    then show "list_ex (\<lambda>(r, c). (c + 1 < COLS \<and> g (r, c) = g (r, c + 1))
                          \<or> (r + 1 < ROWS \<and> g (r, c) = g (r + 1, c))) all_cells"
      unfolding list_ex_all_cells by simp
  qed
qed

text \<open>
  C6: for a tile collection with pairwise distinct cells inside the grid, \<^verbatim>\<open>can_move\<close>
  returns, and it returns False exactly when every cell of the 4x4 grid holds a tile
  and no two cells next to each other in a row or a column hold equal values.
\<close>

theorem can_move_false_iff:
  assumes "well_placed ts"
  shows "(\<exists>b. can_move ts = Inr b)
         \<and> (can_move ts = Inr False \<longleftrightarrow> grid_full ts \<and> \<not> equal_neighbours ts)"
proof (cases "length ts < 16")
  case True
  then have "can_move ts = Inr True" by (simp add: can_move_def ROWS_def COLS_def)
  then show ?thesis using well_placed_length(2) [OF assms] True by auto
next
  case False
  then have full: "grid_full ts" using well_placed_length(2) [OF assms] by simp
  have pv: "place_values ts (\<lambda>_. 0)
      = Inr (\<lambda>c. case value_at ts c of Some v \<Rightarrow> v | None \<Rightarrow> 0)"
    using place_values_ok [of ts "\<lambda>_. 0"] assms by (simp add: well_placed_def)
  have "can_move ts = Inr (equal_neighbours ts)"
    using False neighbour_check [OF full] by (simp add: can_move_def ROWS_def COLS_def pv)
  then show ?thesis using full by simp
qed

lemma well_placed_full_board: "well_placed full_board"
  by (simp add: well_placed_def full_board_def all_cells_def range4_def new_Tile_def cell_def
        inside_iff)

theorem can_move_false_iff_witness:
  "well_placed full_board \<and> can_move full_board = Inr False
   \<and> grid_full full_board \<and> \<not> equal_neighbours full_board
   \<and> well_placed ex_tiles \<and> can_move ex_tiles = Inr True \<and> \<not> grid_full ex_tiles"
proof -
  have f: "can_move full_board = Inr False" by code_simp
  have t: "can_move ex_tiles = Inr True" by code_simp
  have n: "\<not> grid_full ex_tiles" by code_simp
  note 1 = can_move_false_iff [OF well_placed_full_board]
  have p: "grid_full full_board \<and> \<not> equal_neighbours full_board"
    by (rule iffD1 [OF 1 [THEN conjunct2] f])
  show ?thesis
    by (intro conjI well_placed_full_board f p [THEN conjunct1] p [THEN conjunct2]
          well_placed_ex t n)
qed






text \<open>
  C8 fails on the code. Pressing the left key on two equal neighbours leaves one tile
  with merge counter 7 at the end of that frame (\<^verbatim>\<open>move\<close> sets it to 8 and \<^verbatim>\<open>draw\<close>
  decrements it). In the next frame, where nothing slides and the merge phase runs,
  the counter goes from 7 to 5: \<^verbatim>\<open>main\<close> decrements it and \<^verbatim>\<open>Tile.draw\<close> decrements it
  again.
\<close>

theorem merge_counter_decremented_twice:
  "frame [KEYDOWN K_LEFT] 0 0 merge_start = Inr merge_game
   \<and> map merge_anim_counter (game_tiles merge_game) = [7]
   \<and> \<not> list_ex (\<lambda>t. snd (update_position t)) (game_tiles merge_game)
   \<and> frame [] 0 0 merge_game =
       Inr \<lparr> game_tiles = [(new_Tile 4 0 0)\<lparr>merged := True, merge_anim_counter := 5\<rparr>],
             running = True, animating = True, merge_animation_running = True \<rparr>"
  by code_simp

lemma game_tiles_quit_events [simp]: "game_tiles (quit_events es gm) = game_tiles gm"
  by (induction es gm rule: quit_events.induct) simp_all

lemma counter_update_position:
  "merge_anim_counter (fst (update_position t)) = merge_anim_counter t"
  by (simp add: update_position_def Let_def)

lemma merge_phase_frame:
  assumes ph: "animating gm \<or> merge_animation_running gm"
    and still: "\<not> list_ex (\<lambda>t. snd (update_position t)) (game_tiles gm)"
    and i: "i < length (game_tiles gm)" "2 \<le> merge_anim_counter (game_tiles gm ! i)"
  shows "\<exists>gm'. frame es k u gm = Inr gm'
           \<and> merge_anim_counter (game_tiles gm' ! i)
               = merge_anim_counter (game_tiles gm ! i) - 2"
proof -
  define n where "n = merge_anim_counter (game_tiles gm ! i)"
  define ts1 where "ts1 = map (\<lambda>t. fst (update_position t)) (game_tiles gm)"
  define ts2 where "ts2 = map progress_merge ts1"
  have l1: "i < length ts1" and c1: "merge_anim_counter (ts1 ! i) = n"
    using i(1) by (simp_all add: ts1_def n_def counter_update_position)
  have n2: "2 \<le> n" using i(2) by (simp add: n_def)
  have l2: "i < length ts2" and c2: "merge_anim_counter (ts2 ! i) = n - 1"
    using l1 c1 n2 by (simp_all add: ts2_def progress_merge_def)
  have "0 < merge_anim_counter (ts1 ! i)" using c1 n2 by simp
  then have "ts1 ! i \<in> set (filter (\<lambda>t. merge_anim_counter t > 0) ts1)"
    using l1 by simp
  then have ne: "filter (\<lambda>t. merge_anim_counter t > 0) ts1 \<noteq> []"
    by (metis empty_iff empty_set)
  have nz: "\<not> list_all (\<lambda>t. merge_anim_counter t = 0) ts2"
  proof
    assume "list_all (\<lambda>t. merge_anim_counter t = 0) ts2"
    then have "merge_anim_counter (ts2 ! i) = 0" using l2 by (simp add: list_all_length)
    then show False using c2 n2 by simp
  qed
  have an: "animate k u gm
      = Inr (gm\<lparr>game_tiles := ts2, merge_animation_running := True\<rparr>)"
    using still ne nz unfolding animate_def Let_def ts2_def [symmetric] ts1_def [symmetric]
    by (cases "merge_animation_running gm") simp_all
  have fr: "frame es k u gm
      = Inr ((quit_events es (gm\<lparr>game_tiles := ts2, merge_animation_running := True\<rparr>))
               \<lparr>game_tiles := draw ts2\<rparr>)"
    using ph an by (cases "animating gm") (simp_all add: frame_def)
  have "merge_anim_counter (draw ts2 ! i) = n - 2"
    using l2 c2 n2 by (simp add: draw_def draw_tile_def)
  then show ?thesis unfolding n_def [symmetric] using fr by simp
qed

end
